theory Spec2Isabelle
  imports Complex_Main "HOL-Library.Word"
begin

unbundle bit_operations_syntax

section \<open>FIR runtime: the circular queue of a parallel filter\<close>

text \<open>
  \<^verbatim>\<open>updatepq(n, d, xi, xq, in, s)\<close> of \<^verbatim>\<open>libaf/filter.c\<close>.  The queue \<^verbatim>\<open>*xq\<close> is one
  array holding \<open>d\<close> queues of \<open>2 * n\<close> samples each; \<open>txq\<close> and \<open>ip\<close> are the offsets of
  the two running pointers \<^verbatim>\<open>txq\<close> and \<^verbatim>\<open>in\<close>.  The sample type \<^verbatim>\<open>_ftype_t\<close> is \<^typ>\<open>real\<close>.

  The \<^verbatim>\<open>unsigned int\<close> arguments are 32-bit words, whose arithmetic wraps around; an
  offset into a buffer is the number \<open>unat\<close> of such a word.
\<close>

text \<open>
  The conversion of an \<^verbatim>\<open>unsigned int\<close> to \<^verbatim>\<open>int\<close>, in two's complement: values from \<open>2 ^ 31\<close>
  on are negative.
\<close>

definition to_int :: "32 word \<Rightarrow> int" where
  "to_int x = (if unat x < 2 ^ 31 then int (unat x) else int (unat x) - 2 ^ 32)"

text \<open>
  The loop \<^verbatim>\<open>while(d-- >0)\<close>.  The stride \<open>nt\<close> and the offset \<open>txq\<close> are integers, as
  \<^verbatim>\<open>register int nt\<close> can be negative.  The result is \<open>None\<close> when a store or a load falls
  outside the queue array or the input, where C leaves the behaviour undefined.
\<close>

fun updatepq_loop ::
  "nat \<Rightarrow> int \<Rightarrow> nat \<Rightarrow> nat \<Rightarrow> int \<Rightarrow> nat \<Rightarrow> real list \<Rightarrow> real list \<Rightarrow> real list option" where
  "updatepq_loop n nt s 0 txq ip xq inp = Some xq"
| "updatepq_loop n nt s (Suc d) txq ip xq inp =
     (if 0 \<le> txq \<and> nat txq + n < length xq \<and> ip < length inp
      then updatepq_loop n nt s d (txq + nt) (ip + s)
             (xq[nat txq + n := inp ! ip, nat txq := inp ! ip]) inp
      else None)"

definition updatepq ::
  "32 word \<Rightarrow> 32 word \<Rightarrow> 32 word \<Rightarrow> real list \<Rightarrow> real list \<Rightarrow> 32 word \<Rightarrow>
   (real list \<times> int) option" where
  "updatepq n d xi xq inp s =
     (let txq = int (unat xi); nt = to_int (n * 2)
      in case updatepq_loop (unat n) nt (unat s) (unat d) txq 0 xq inp of
           None \<Rightarrow> None
         | Some xq \<Rightarrow> Some (xq, to_int ((xi + 1) AND (n - 1))))"

text \<open>
  The same loop with a stride and an offset that are natural numbers and no bounds
  checks: a device of the proofs below, which show that the loop of the source agrees
  with it whenever the stride \<^verbatim>\<open>n*2\<close> fits an \<^verbatim>\<open>int\<close> and the buffers are large enough.
\<close>

fun updatepq_loop_nat ::
  "nat \<Rightarrow> nat \<Rightarrow> nat \<Rightarrow> nat \<Rightarrow> nat \<Rightarrow> nat \<Rightarrow> real list \<Rightarrow> real list \<Rightarrow> real list" where
  "updatepq_loop_nat n nt s 0 txq ip xq inp = xq"
| "updatepq_loop_nat n nt s (Suc d) txq ip xq inp =
     updatepq_loop_nat n nt s d (txq + nt) (ip + s)
       (xq[txq + n := inp ! ip, txq := inp ! ip]) inp"

section \<open>What \<^verbatim>\<open>dsp.h\<close> supplies\<close>

text \<open>
  \<^verbatim>\<open>filter.c\<close> includes \<^verbatim>\<open>dsp.h\<close> for the flag constants of \<^verbatim>\<open>filter.h\<close> and for the window
  generators of \<^verbatim>\<open>window.h\<close>.  Neither header is part of the sources at hand, so both are
  a parameter of the design functions: a record of the constants, as 32-bit words, and of
  the generators.  A generator \<^verbatim>\<open>boxcar(n, w)\<close> fills \<^verbatim>\<open>w[0..n-1]\<close>; here \<open>boxcar h n i\<close> is
  the coefficient it stores at index \<open>i\<close>.
\<close>

record dsp_h =
  WINDOW_MASK :: "32 word"
  BOXCAR :: "32 word"
  TRIANG :: "32 word"
  HAMMING :: "32 word"
  HANNING :: "32 word"
  BLACKMAN :: "32 word"
  FLATTOP :: "32 word"
  KAISER :: "32 word"
  LP :: "32 word"
  HP :: "32 word"
  BP :: "32 word"
  BS :: "32 word"
  REW :: "32 word"
  ODD :: "32 word"
  boxcar :: "nat \<Rightarrow> nat \<Rightarrow> real"
  triang :: "nat \<Rightarrow> nat \<Rightarrow> real"
  hamming :: "nat \<Rightarrow> nat \<Rightarrow> real"
  hanning :: "nat \<Rightarrow> nat \<Rightarrow> real"
  blackman :: "nat \<Rightarrow> nat \<Rightarrow> real"
  flattop :: "nat \<Rightarrow> nat \<Rightarrow> real"
  kaiser :: "nat \<Rightarrow> real \<Rightarrow> nat \<Rightarrow> real"

text \<open>
  One instance, for the concrete evaluations below: one bit per filter kind, the window
  selectors below the window mask, and the boxcar window, which is constantly 1.  The
  other generators are given by their textbook formulas; no evaluation below calls them.
\<close>

definition dsp0 :: dsp_h where
  "dsp0 = \<lparr> WINDOW_MASK = 0x1F, BOXCAR = 0x01, TRIANG = 0x02, HAMMING = 0x04,
            HANNING = 0x08, BLACKMAN = 0x10, FLATTOP = 0x11, KAISER = 0x12,
            LP = 0x10000, HP = 0x20000, BP = 0x40000, BS = 0x80000,
            REW = 0x02, ODD = 0x10,
            boxcar = (\<lambda>n i. 1),
            triang = (\<lambda>n i. 1 - \<bar>(2 * real i - real n + 1) / (real n + 1)\<bar>),
            hamming = (\<lambda>n i. 0.54 - 0.46 * cos (2 * pi * real i / (real n - 1))),
            hanning = (\<lambda>n i. 0.5 * (1 - cos (2 * pi * real (i + 1) / (real n + 1)))),
            blackman = (\<lambda>n i. 0.42 - 0.5 * cos (2 * pi * real i / (real n - 1))
                                + 0.08 * cos (4 * pi * real i / (real n - 1))),
            flattop = (\<lambda>n i. 0.2810638602 - 0.5208971735 * cos (2 * pi * real i / (real n - 1))
                                + 0.1980389663 * cos (4 * pi * real i / (real n - 1))),
            kaiser = (\<lambda>n b i. 1) \<rparr>"

section \<open>FIR design by the window method\<close>

text \<open>
  \<^verbatim>\<open>design_fir(n, w, fc, flags, opt)\<close>.  The tap type \<^verbatim>\<open>_ftype_t\<close> is \<^typ>\<open>real\<close>: rounding is
  not modelled.  A division by zero is: the only divisor of \<^verbatim>\<open>design_fir\<close> that can vanish
  is the gain in \<^verbatim>\<open>g=1/g\<close> (the other one, \<^verbatim>\<open>M_PI * t1\<close>, has \<open>t1 \<ge> 1/2\<close>), and the result of
  the design says so.  The buffer \<^verbatim>\<open>w\<close> is a list, \<open>None\<close> for a null pointer; the window
  generator writes its first \<open>n\<close> entries, and the caller is to supply at least that many.
  The length \<open>n\<close> is the value of the \<^verbatim>\<open>unsigned int\<close> argument; its successor in
  \<^verbatim>\<open>(n + 1) >> 1\<close> is computed without wrap-around, which is the code for every
  \<open>n < 2 ^ 32 - 1\<close>.
  The cutoffs \<^verbatim>\<open>fc\<close> are a list, read at index 0 and, by the second block, at index 1.

  \<^item> \<open>Fail b\<close>: the function returned \<open>-1\<close>; \<open>b\<close> is the buffer \<^verbatim>\<open>w\<close> as the call left it
    (\<open>None\<close> for a null pointer).
  \<^item> \<open>Done w\<close>: it returned \<open>0\<close> and \<open>w\<close> holds the normalised taps.
  \<^item> \<open>Done_nonfinite w\<close>: it returned \<open>0\<close> with \<open>g = 0\<close>; every \<^verbatim>\<open>w[i] *= g\<close> multiplied
    by the infinity \<open>1/0\<close>, and \<open>w\<close> is the buffer the call returns: its first \<open>n\<close> entries are
    infinities or NaN.

  A tap of such a buffer is a \<open>tap\<close>: \<open>Fin x\<close> is the finite value \<open>x\<close>, \<open>Inf s\<close> an infinity,
  of the sign of \<open>1/0\<close> if \<open>s\<close> holds and of the opposite sign if not (the sign of the zero
  \<open>g\<close> is not modelled), and \<open>NaN\<close> is not-a-number.  \<open>mul_inf x\<close> is the product of the finite
  \<open>x\<close> and \<open>1/0\<close>, and \<open>tap_eq\<close> is the \<^verbatim>\<open>==\<close> of C on taps, which no NaN satisfies.
\<close>

datatype tap = Fin real | Inf bool | NaN

definition mul_inf :: "real \<Rightarrow> tap" where
  "mul_inf x = (if x = 0 then NaN else Inf (0 < x))"

fun tap_eq :: "tap \<Rightarrow> tap \<Rightarrow> bool" where
  "tap_eq (Fin x) (Fin y) = (x = y)"
| "tap_eq (Inf a) (Inf b) = (a = b)"
| "tap_eq a b = False"

datatype fir_result = Fail "real list option" | Done "real list" | Done_nonfinite "tap list"

fun fir_ret :: "fir_result \<Rightarrow> int" where
  "fir_ret (Fail b) = - 1"
| "fir_ret (Done w) = 0"
| "fir_ret (Done_nonfinite w) = 0"

text \<open>The \<^verbatim>\<open>switch(flags & WINDOW_MASK)\<close>; \<open>None\<close> is its \<^verbatim>\<open>default\<close> case.\<close>

definition fir_window :: "dsp_h \<Rightarrow> 32 word \<Rightarrow> nat \<Rightarrow> real \<Rightarrow> (nat \<Rightarrow> real) option" where
  "fir_window h flags n opt =
     (let sel = flags AND WINDOW_MASK h in
      if sel = BOXCAR h then Some (boxcar h n)
      else if sel = TRIANG h then Some (triang h n)
      else if sel = HAMMING h then Some (hamming h n)
      else if sel = HANNING h then Some (hanning h n)
      else if sel = BLACKMAN h then Some (blackman h n)
      else if sel = FLATTOP h then Some (flattop h n)
      else if sel = KAISER h then Some (kaiser h n opt)
      else None)"

text \<open>\<^verbatim>\<open>((fc1 <= 1.0) && (fc1 > 0.0)) ? fc1/2 : 0.25\<close>\<close>

definition fir_cutoff :: "real \<Rightarrow> real" where
  "fir_cutoff fc1 = (if fc1 \<le> 1 \<and> fc1 > 0 then fc1 / 2 else 0.25)"

text \<open>
  The bodies of the four tap loops, on the pair of the buffer and the gain.  Each stores
  one value at the two mirrored indices \<open>n - e + i\<close> and \<open>e - i - 1\<close>, where \<open>e\<close> is the
  loop end.
\<close>

definition lp_tap :: "real \<Rightarrow> real \<Rightarrow> nat \<Rightarrow> nat \<Rightarrow> nat \<Rightarrow> real list \<times> real \<Rightarrow> real list \<times> real" where
  "lp_tap k1 k2 n e i = (\<lambda>(w, g).
     let t1 = real (i + 1) - k2;
         v = w ! (e - i - 1) * sin (k1 * t1) / (pi * t1);
         w = w[n - e + i := v, e - i - 1 := v]
     in (w, g + 2 * w ! (e - i - 1)))"

definition hp_tap :: "real \<Rightarrow> nat \<Rightarrow> nat \<Rightarrow> nat \<Rightarrow> real list \<times> real \<Rightarrow> real list \<times> real" where
  "hp_tap k1 n e i = (\<lambda>(w, g).
     let t1 = real (i + 1);
         v = - 1 * w ! (e - i - 1) * sin (k1 * t1) / (pi * t1);
         w = w[n - e + i := v, e - i - 1 := v]
     in (w, g + (if i AND 1 \<noteq> 0 then 2 * w ! (e - i - 1) else - 2 * w ! (e - i - 1))))"

definition bp_tap :: "real \<Rightarrow> real \<Rightarrow> real \<Rightarrow> nat \<Rightarrow> nat \<Rightarrow> nat \<Rightarrow> real list \<times> real \<Rightarrow> real list \<times> real" where
  "bp_tap k1 k2 k3 n e i = (\<lambda>(w, g).
     let t1 = real (i + 1) - k2;
         t2 = sin (k3 * t1) / (pi * t1);
         t3 = sin (k1 * t1) / (pi * t1);
         g = g + w ! (e - i - 1) * (t3 + t2);
         v = w ! (e - i - 1) * (t2 - t3)
     in (w[n - e + i := v, e - i - 1 := v], g))"

definition bs_tap :: "real \<Rightarrow> real \<Rightarrow> nat \<Rightarrow> nat \<Rightarrow> nat \<Rightarrow> real list \<times> real \<Rightarrow> real list \<times> real" where
  "bs_tap k1 k3 n e i = (\<lambda>(w, g).
     let t1 = real (i + 1);
         t2 = sin (k1 * t1) / (pi * t1);
         t3 = sin (k3 * t1) / (pi * t1);
         v = w ! (e - i - 1) * (t2 - t3);
         w = w[n - e + i := v, e - i - 1 := v]
     in (w, g + 2 * w ! (e - i - 1)))"

text \<open>
  The block \<^verbatim>\<open>if(flags & (LP | HP))\<close>, on the buffer, the gain and \<open>k1\<close>.  \<open>Inl w\<close> is the
  \<^verbatim>\<open>return -1\<close> of a high pass of even length, with the buffer at that point.
\<close>

definition fir_lp_hp ::
  "dsp_h \<Rightarrow> nat \<Rightarrow> nat \<Rightarrow> nat \<Rightarrow> real \<Rightarrow> real list \<Rightarrow> 32 word \<Rightarrow>
   real list \<times> real \<times> real \<Rightarrow> real list + real list \<times> real \<times> real" where
  "fir_lp_hp h n od e k2 fc flags = (\<lambda>(w, g, k1).
     let fc1 = fir_cutoff (fc ! 0);
         k1 = k1 * fc1
     in if flags AND LP h \<noteq> 0 then
          let (w, g) = (if od \<noteq> 0 then let w = w[e := fc1 * w ! e * 2] in (w, w ! e)
                        else (w, g));
              (w, g) = fold (lp_tap k1 k2 n e) [0..<e] (w, g)
          in Inr (w, g, k1)
        else if od = 0 then Inl w
        else
          let w = w[e := 1 - fc1 * w ! e * 2];
              g = w ! e;
              (w, g) = fold (hp_tap k1 n e) [0..<e] (w, g)
          in Inr (w, g, k1))"

text \<open>
  The block \<^verbatim>\<open>if(flags & (BP | BS))\<close>.  It starts from the \<open>k1\<close> the first block left.
\<close>

definition fir_bp_bs ::
  "dsp_h \<Rightarrow> nat \<Rightarrow> nat \<Rightarrow> nat \<Rightarrow> real \<Rightarrow> real list \<Rightarrow> 32 word \<Rightarrow>
   real list \<times> real \<times> real \<Rightarrow> real list + real list \<times> real \<times> real" where
  "fir_bp_bs h n od e k2 fc flags = (\<lambda>(w, g, k1).
     let fc1 = fir_cutoff (fc ! 0);
         fc2 = fir_cutoff (fc ! 1);
         k3 = k1 * fc2;
         k1 = k1 * fc1
     in if flags AND BP h \<noteq> 0 then
          let (w, g) = (if od \<noteq> 0 then (w[e := (fc2 - fc1) * w ! e * 2], w ! e * (fc1 + fc2))
                        else (w, g));
              (w, g) = fold (bp_tap k1 k2 k3 n e) [0..<e] (w, g)
          in Inr (w, g, k1)
        else if od = 0 then Inl w
        else
          let w = w[e := 1 - (fc2 - fc1) * w ! e * 2];
              g = w ! e;
              (w, g) = fold (bs_tap k1 k3 n e) [0..<e] (w, g)
          in Inr (w, g, k1))"

text \<open>
  Everything before \<^verbatim>\<open>// Normalize gain\<close>: \<open>Inl b\<close> is a \<^verbatim>\<open>return -1\<close> with the buffer as
  it is then, \<open>Inr (w, g)\<close> the taps and the gain that reach the normalisation.
\<close>

definition fir_synth ::
  "dsp_h \<Rightarrow> nat \<Rightarrow> real list option \<Rightarrow> real list \<Rightarrow> 32 word \<Rightarrow> real \<Rightarrow>
   real list option + real list \<times> real" where
  "fir_synth h n w fc flags opt =
     (let od = n AND 1;
          e = drop_bit 1 (n + 1) - od;
          k1 = 2 * pi;
          k2 = 0.5 * real (1 - od);
          g = 0
      in case w of
           None \<Rightarrow> Inl None
         | Some w \<Rightarrow>
             if n = 0 then Inl (Some w)
             else
               (case fir_window h flags n opt of
                  None \<Rightarrow> Inl (Some w)
                | Some env \<Rightarrow>
                    let w = map env [0..<n] @ drop n w in
                    (case (if flags AND (LP h OR HP h) \<noteq> 0
                           then fir_lp_hp h n od e k2 fc flags (w, g, k1)
                           else Inr (w, g, k1)) of
                       Inl w \<Rightarrow> Inl (Some w)
                     | Inr s \<Rightarrow>
                         (case (if flags AND (BP h OR BS h) \<noteq> 0
                                then fir_bp_bs h n od e k2 fc flags s
                                else Inr s) of
                            Inl w \<Rightarrow> Inl (Some w)
                          | Inr (w, g, k1) \<Rightarrow> Inr (w, g)))))"

text \<open>\<^verbatim>\<open>g=1/g; for (i=0; i<n; i++) w[i] *= g;\<close>\<close>

definition fir_normalize :: "nat \<Rightarrow> real list \<Rightarrow> real \<Rightarrow> fir_result" where
  "fir_normalize n w g =
     (if g = 0 then Done_nonfinite (fold (\<lambda>i t. t[i := mul_inf (w ! i)]) [0..<n] (map Fin w))
      else let g = 1 / g in Done (fold (\<lambda>i w. w[i := w ! i * g]) [0..<n] w))"

definition design_fir ::
  "dsp_h \<Rightarrow> nat \<Rightarrow> real list option \<Rightarrow> real list \<Rightarrow> 32 word \<Rightarrow> real \<Rightarrow> fir_result" where
  "design_fir h n w fc flags opt =
     (case fir_synth h n w fc flags opt of
        Inl b \<Rightarrow> Fail b
      | Inr (w, g) \<Rightarrow> fir_normalize n w g)"


section \<open>Polyphase decomposition\<close>

text \<open>
  \<^verbatim>\<open>design_pfir(n, k, w, pw, g, flags)\<close>.  The bank \<^verbatim>\<open>pw\<close> is a list of rows; \<open>p\<close> is the
  offset of the running pointer \<^verbatim>\<open>w++\<close> into the prototype.  The inner loop over the rows
  \<open>i\<close> of one column \<open>j\<close>, with the sign of that column:
\<close>

definition pfir_rows ::
  "real \<Rightarrow> real list \<Rightarrow> nat \<Rightarrow> nat \<Rightarrow> real \<Rightarrow> nat \<times> real list list \<Rightarrow> nat \<times> real list list" where
  "pfir_rows g w k j sg =
     fold (\<lambda>i (p, pw). let t = g * w ! p in (p + 1, pw[i := (pw ! i)[j := t * sg]])) [0..<k]"

text \<open>
  The two column loops: \<^verbatim>\<open>for(j=l-1;j>-1;j--)\<close> under \<^verbatim>\<open>flags&REW\<close>, and
  \<^verbatim>\<open>for(j=0;j<l;j++)\<close> otherwise.
\<close>

definition pfir_fill ::
  "dsp_h \<Rightarrow> int \<Rightarrow> int \<Rightarrow> real list \<Rightarrow> real list list \<Rightarrow> real \<Rightarrow> 32 word \<Rightarrow> real list list" where
  "pfir_fill h l k w pw g flags =
     (if flags AND REW h \<noteq> 0 then
        snd (fold (\<lambda>j. pfir_rows g w (nat k) j
                         (if flags AND ODD h \<noteq> 0 then (if j AND 1 \<noteq> 0 then - 1 else 1) else 1))
               (rev [0..<nat l]) (0, pw))
      else
        snd (fold (\<lambda>j. pfir_rows g w (nat k) j
                         (if flags AND ODD h \<noteq> 0 then (if j AND 1 \<noteq> 0 then 1 else - 1) else 1))
               [0..<nat l] (0, pw)))"

text \<open>
  The sanity check \<^verbatim>\<open>if(l<1 || k<1 || !w || !pw)\<close>.  The length \<^verbatim>\<open>int l = (int)n/k\<close> is the
  unsigned quotient converted to \<^verbatim>\<open>int\<close>, so it is negative from \<open>2 ^ 31\<close> on.
\<close>

definition pfir_sanity_fails ::
  "32 word \<Rightarrow> 32 word \<Rightarrow> real list option \<Rightarrow> real list list option \<Rightarrow> bool" where
  "pfir_sanity_fails n k w pw =
     (let l = to_int (n div k) in l < 1 \<or> k < 1 \<or> w = None \<or> pw = None)"

text \<open>
  The result is \<open>None\<close> when \<open>k = 0\<close>: the initialiser \<^verbatim>\<open>int l = (int)n/k\<close> divides by zero
  before the sanity check is reached.  Otherwise it is the returned value together with
  the bank as the call leaves it.  Both \<^verbatim>\<open>return\<close> statements of the function return \<open>-1\<close>.
  The column loops run to \<open>l\<close> and the row loop to \<^verbatim>\<open>(int)k\<close>, both integers.
\<close>

definition design_pfir ::
  "dsp_h \<Rightarrow> 32 word \<Rightarrow> 32 word \<Rightarrow> real list option \<Rightarrow> real list list option \<Rightarrow> real \<Rightarrow> 32 word \<Rightarrow>
   (int \<times> real list list option) option" where
  "design_pfir h n k w pw g flags =
     (if k = 0 then None
      else if pfir_sanity_fails n k w pw then Some (- 1, pw)
      else
        (case w of
           None \<Rightarrow> Some (- 1, pw)
         | Some w \<Rightarrow>
             (case pw of
                None \<Rightarrow> Some (- 1, None)
              | Some pw \<Rightarrow>
                  Some (- 1, Some (pfir_fill h (to_int (n div k)) (to_int k) w pw g flags)))))"

section \<open>IIR design: prewarping and the bilinear transform\<close>

text \<open>
  The coefficient triples \<^verbatim>\<open>a[3]\<close>, \<^verbatim>\<open>b[3]\<close> are lists.  None of the divisions of this part is
  guarded in the source.  In the model a result is \<open>None\<close> when a divisor is zero, or when
  \<^verbatim>\<open>tan\<close> is taken at a pole: the floating-point values are then infinities or NaN (or, at
  the pole, an artefact of rounding) and no real number stands for them.
\<close>

definition prewarp :: "real list \<Rightarrow> real \<Rightarrow> real \<Rightarrow> real list option" where
  "prewarp a fc fs =
     (if fs = 0 \<or> cos (pi * fc / fs) = 0 then None
      else
        let wp = 2 * fs * tan (pi * fc / fs)
        in if wp = 0 then None
           else Some (a[2 := a ! 2 / (wp * wp), 1 := a ! 1 / wp]))"

text \<open>
  \<^verbatim>\<open>bilinear(a, b, k, fs, coef)\<close> yields the updated gain \<^verbatim>\<open>*k\<close> and the array \<^verbatim>\<open>coef\<close> with
  its first four entries written: \<open>beta1\<close>, \<open>beta2\<close>, \<open>alpha1\<close>, \<open>alpha2\<close>.
\<close>

definition bilinear ::
  "real list \<Rightarrow> real list \<Rightarrow> real \<Rightarrow> real \<Rightarrow> real list \<Rightarrow> (real \<times> real list) option" where
  "bilinear a b k fs coef =
     (let ad = 4 * a ! 2 * fs * fs + 2 * a ! 1 * fs + a ! 0;
          bd = 4 * b ! 2 * fs * fs + 2 * b ! 1 * fs + b ! 0
      in if bd = 0 \<or> ad = 0 then None
         else
           let k = k * (ad / bd)
           in Some (k,
                [(2 * b ! 0 - 8 * b ! 2 * fs * fs) / bd,
                 (4 * b ! 2 * fs * fs - 2 * b ! 1 * fs + b ! 0) / bd,
                 (2 * a ! 0 - 8 * a ! 2 * fs * fs) / ad,
                 (4 * a ! 2 * fs * fs - 2 * a ! 1 * fs + a ! 0) / ad] @ drop 4 coef))"

text \<open>
  \<open>Iir_fail\<close> is \<^verbatim>\<open>return -1\<close>; \<open>Iir_done k coef\<close> is \<^verbatim>\<open>return 0\<close> with the gain and the
  coefficients written; \<open>Iir_nonfinite\<close> is \<^verbatim>\<open>return 0\<close> after a division by zero.
\<close>

datatype iir_result = Iir_fail | Iir_done real "real list" | Iir_nonfinite

fun iir_ret :: "iir_result \<Rightarrow> int" where
  "iir_ret Iir_fail = - 1"
| "iir_ret (Iir_done k coef) = 0"
| "iir_ret Iir_nonfinite = 0"

definition szxform ::
  "real list option \<Rightarrow> real list option \<Rightarrow> real \<Rightarrow> real \<Rightarrow> real \<Rightarrow> real option \<Rightarrow>
   real list option \<Rightarrow> iir_result" where
  "szxform a b Q fc fs k coef =
     (case a of None \<Rightarrow> Iir_fail | Some a \<Rightarrow>
      case b of None \<Rightarrow> Iir_fail | Some b \<Rightarrow>
      case k of None \<Rightarrow> Iir_fail | Some k \<Rightarrow>
      case coef of None \<Rightarrow> Iir_fail | Some coef \<Rightarrow>
        if Q > 1000 \<or> Q < 1 then Iir_fail
        else
          let a_t = take 3 a;
              b_t = take 3 b;
              b_t = b_t[1 := b_t ! 1 / Q]
          in (case prewarp a_t fc fs of
                None \<Rightarrow> Iir_nonfinite
              | Some a_t \<Rightarrow>
                  (case prewarp b_t fc fs of
                     None \<Rightarrow> Iir_nonfinite
                   | Some b_t \<Rightarrow>
                       (case bilinear a_t b_t k fs coef of
                          None \<Rightarrow> Iir_nonfinite
                        | Some (k, coef) \<Rightarrow> Iir_done k coef))))"

text \<open>
  A cascade: one call of \<^verbatim>\<open>szxform\<close> per section, each given the gain the previous call
  left, as the comment of \<^verbatim>\<open>szxform\<close> prescribes.  A section is its numerator, its
  denominator, \<open>Q\<close>, \<open>fc\<close> and \<open>fs\<close>.  The result is the final gain when every call returned
  \<open>0\<close> with finite values.
\<close>

record biquad =
  num :: "real list"
  den :: "real list"
  Qf :: real
  cutoff :: real
  rate :: real

fun szx_cascade :: "biquad list \<Rightarrow> real \<Rightarrow> real option" where
  "szx_cascade [] k = Some k"
| "szx_cascade (s # ss) k =
     (case szxform (Some (num s)) (Some (den s)) (Qf s) (cutoff s) (rate s) (Some k)
             (Some [0, 0, 0, 0]) of
        Iir_done k' coef \<Rightarrow> szx_cascade ss k'
      | Iir_fail \<Rightarrow> None
      | Iir_nonfinite \<Rightarrow> None)"

text \<open>
  The ratio \<open>ad / bd\<close> of one section, written out from its raw coefficients: the
  numerator prewarped, the denominator divided by \<open>Q\<close> and prewarped.
\<close>

definition section_ratio :: "biquad \<Rightarrow> real" where
  "section_ratio s =
     (let fs = rate s;
          wp = 2 * fs * tan (pi * cutoff s / fs);
          a0 = num s ! 0; a1 = num s ! 1 / wp; a2 = num s ! 2 / (wp * wp);
          b0 = den s ! 0; b1 = den s ! 1 / Qf s / wp; b2 = den s ! 2 / (wp * wp);
          ad = 4 * a2 * fs * fs + 2 * a1 * fs + a0;
          bd = 4 * b2 * fs * fs + 2 * b1 * fs + b0
      in ad / bd)"

text \<open>A section for the concrete evaluations: \<open>tan (pi * 1 / 4) = 1\<close>, so \<open>wp = 8\<close>.\<close>

definition biquad0 :: biquad where
  "biquad0 = \<lparr>num = [1, 0, 0], den = [1, 1, 1], Qf = 1, cutoff = 1, rate = 4\<rparr>"

section \<open>Properties of the circular queue\<close>

lemma updatepq_loop_length:
  "length (updatepq_loop_nat n nt s d txq ip xq inp) = length xq"
  by (induction d arbitrary: txq ip xq) simp_all

lemma updatepq_loop_other:
  "(\<And>q. q < d \<Longrightarrow> p \<noteq> txq + q * nt \<and> p \<noteq> txq + q * nt + n) \<Longrightarrow>
   updatepq_loop_nat n nt s d txq ip xq inp ! p = xq ! p"
proof (induction d arbitrary: txq ip xq)
  case 0
  show ?case by simp
next
  case (Suc d)
  have here: "p \<noteq> txq" "p \<noteq> txq + n"
    using Suc.prems [of 0] by simp_all
  have later: "p \<noteq> (txq + nt) + q * nt \<and> p \<noteq> (txq + nt) + q * nt + n" if "q < d" for q
    using Suc.prems [of "Suc q"] that by (simp add: add.assoc add.commute)
  have "updatepq_loop_nat n nt s d (txq + nt) (ip + s) (xq[txq + n := inp ! ip, txq := inp ! ip]) inp ! p
        = (xq[txq + n := inp ! ip, txq := inp ! ip]) ! p"
    by (rule Suc.IH) (use later in blast)
  with here show ?case by simp
qed

lemma updatepq_loop_written:
  "0 < n \<Longrightarrow> q < d \<Longrightarrow> txq + q * (n * 2) + n < length xq \<Longrightarrow>
   updatepq_loop_nat n (n * 2) s d txq ip xq inp ! (txq + q * (n * 2)) = inp ! (ip + q * s) \<and>
   updatepq_loop_nat n (n * 2) s d txq ip xq inp ! (txq + q * (n * 2) + n) = inp ! (ip + q * s)"
proof (induction d arbitrary: txq ip xq q)
  case 0
  then show ?case by simp
next
  case (Suc d)
  let ?xq = "xq[txq + n := inp ! ip, txq := inp ! ip]"
  show ?case
  proof (cases q)
    case 0
    have a: "updatepq_loop_nat n (n * 2) s d (txq + n * 2) (ip + s) ?xq inp ! txq = ?xq ! txq"
      by (rule updatepq_loop_other) (use Suc.prems in simp)
    have b: "updatepq_loop_nat n (n * 2) s d (txq + n * 2) (ip + s) ?xq inp ! (txq + n) = ?xq ! (txq + n)"
      by (rule updatepq_loop_other) (use Suc.prems in simp)
    from Suc.prems 0 a b show ?thesis by simp
  next
    case (Suc q')
    have "q' < d" "(txq + n * 2) + q' * (n * 2) + n < length ?xq"
      using Suc.prems Suc by (simp_all add: algebra_simps)
    from Suc.IH [OF Suc.prems(1) this, of "ip + s"] Suc show ?thesis
      by (simp add: algebra_simps)
  qed
qed

text \<open>The loop of the source, within the buffers, is the loop on natural numbers.\<close>

lemma updatepq_loop_nat_eq:
  "(\<And>q. q < d \<Longrightarrow> txq + q * nt + n < length xq \<and> ip + q * s < length inp) \<Longrightarrow>
   updatepq_loop n (int nt) s d (int txq) ip xq inp
     = Some (updatepq_loop_nat n nt s d txq ip xq inp)"
proof (induction d arbitrary: txq ip xq)
  case 0
  show ?case by simp
next
  case (Suc d)
  have here: "txq + n < length xq" "ip < length inp"
    using Suc.prems [of 0] by simp_all
  have later: "(txq + nt) + q * nt + n < length (xq[txq + n := inp ! ip, txq := inp ! ip]) \<and>
               (ip + s) + q * s < length inp" if "q < d" for q
    using Suc.prems [of "Suc q"] that by (simp add: algebra_simps)
  have "updatepq_loop n (int nt) s d (int (txq + nt)) (ip + s)
          (xq[txq + n := inp ! ip, txq := inp ! ip]) inp
        = Some (updatepq_loop_nat n nt s d (txq + nt) (ip + s)
                  (xq[txq + n := inp ! ip, txq := inp ! ip]) inp)"
    by (rule Suc.IH) (use later in blast)
  with here show ?case by simp
qed

lemma unat_pow2: "m < 32 \<Longrightarrow> unat (2 ^ m :: 32 word) = 2 ^ m"
proof -
  assume "m < 32"
  then have "(2 ^ m :: 32 word) \<noteq> 0" by simp
  then have "(0 :: 32 word) < 2 ^ m" unfolding word_gt_0 by (rule not_sym)
  then have "uint (2 ^ m :: 32 word) = 2 ^ m" by (rule uint_2p)
  then show ?thesis by (simp add: unat_eq_nat_uint nat_power_eq)
qed

lemma to_int_small: "unat x < 2 ^ 31 \<Longrightarrow> to_int x = int (unat x)"
  by (simp add: to_int_def)

lemma unat_double: "unat (n::32 word) < 2 ^ 31 \<Longrightarrow> unat (n * 2) = unat n * 2"
  by (simp add: unat_word_ariths)

lemma unat_succ: "unat (xi::32 word) < 2 ^ 31 \<Longrightarrow> unat (xi + 1) = unat xi + 1"
  by (simp add: unat_word_ariths)

lemma unat_mask_pow2: "unat ((x::32 word) AND (2 ^ m - 1)) = unat x mod 2 ^ m"
  by (simp add: mask_eq_decr_exp [symmetric] take_bit_eq_mask [symmetric] unsigned_take_bit_eq)
    (simp add: take_bit_eq_mod)

lemma pow2_less_2p30: "m < 30 \<Longrightarrow> (2::nat) ^ m < 2 ^ 30"
  by (rule power_strict_increasing) simp_all

text \<open>
  C9.  For a filter length \<open>n = 2 ^ m\<close> below \<open>2 ^ 30\<close> (so that the stride \<^verbatim>\<open>n*2\<close> fits an
  \<^verbatim>\<open>int\<close>), a cursor \<open>xi < n\<close>, a queue array that holds the \<open>d\<close> queues and an input that
  holds the \<open>d\<close> samples at stride \<open>s\<close>: \<open>updatepq\<close> returns; it has stored the sample of
  queue \<open>q\<close> at the two positions \<open>xi\<close> and \<open>xi + n\<close> of that queue and changed no other
  position; and the value returned is the cursor \<open>(xi + 1) mod n\<close>, again below \<open>n\<close>.
\<close>

theorem updatepq_pushes:
  assumes "n = 2 ^ m" and "m < 30" and "xi < n"
    and "unat d * (2 * unat n) \<le> length xq" and "\<forall>q<unat d. q * unat s < length inp"
  shows "\<exists>xq'. updatepq n d xi xq inp s = Some (xq', int ((unat xi + 1) mod unat n)) \<and>
           (\<forall>q<unat d. xq' ! (q * (2 * unat n) + unat xi) = inp ! (q * unat s) \<and>
                       xq' ! (q * (2 * unat n) + unat xi + unat n) = inp ! (q * unat s)) \<and>
           (\<forall>p. (\<forall>q<unat d. p \<noteq> q * (2 * unat n) + unat xi \<and>
                              p \<noteq> q * (2 * unat n) + unat xi + unat n) \<longrightarrow> xq' ! p = xq ! p) \<and>
           length xq' = length xq \<and> (unat xi + 1) mod unat n < unat n"
proof -
  define N D S X where "N = unat n" and "D = unat d" and "S = unat s" and "X = unat xi"
  have N: "N = 2 ^ m" using assms(1,2) by (simp add: N_def unat_pow2)
  have N30: "N < 2 ^ 30" unfolding N using assms(2) by (rule pow2_less_2p30)
  have n0: "0 < N" using N by simp
  have X: "X < N" using assms(3) by (simp add: X_def N_def word_less_nat_alt)
  have nt: "to_int (n * 2) = int (N * 2)"
    using N30 by (simp add: to_int_small unat_double N_def)
  have fits: "X + q * (N * 2) + N < length xq \<and> 0 + q * S < length inp" if "q < D" for q
  proof -
    have "Suc q * (2 * N) \<le> D * (2 * N)"
      using that by (intro mult_le_mono1) simp
    with X assms(4) have "X + q * (N * 2) + N < length xq"
      by (simp add: algebra_simps N_def D_def)
    with assms(5) that show ?thesis by (simp add: D_def S_def)
  qed
  let ?xq = "updatepq_loop_nat N (N * 2) S D X 0 xq inp"
  have loop: "updatepq_loop N (int (N * 2)) S D (int X) 0 xq inp = Some ?xq"
    by (rule updatepq_loop_nat_eq) (use fits in blast)
  have "unat ((xi + 1) AND (n - 1)) = (X + 1) mod N"
    using X N30 by (simp add: assms(1) unat_mask_pow2 unat_succ N X_def)
  moreover have "(X + 1) mod N < N" using n0 by simp
  ultimately have cur: "to_int ((xi + 1) AND (n - 1)) = int ((X + 1) mod N)"
    using N30 by (intro trans [OF to_int_small]) simp_all
  have res: "updatepq n d xi xq inp s = Some (?xq, int ((X + 1) mod N))"
    using loop nt cur by (simp add: updatepq_def N_def D_def S_def X_def)
  have written: "\<forall>q<D. ?xq ! (q * (2 * N) + X) = inp ! (q * S) \<and>
                       ?xq ! (q * (2 * N) + X + N) = inp ! (q * S)"
  proof (intro allI impI)
    fix q assume q: "q < D"
    from fits [OF q] have "X + q * (N * 2) + N < length xq" by simp
    from updatepq_loop_written [OF n0 q this, where s = S and ip = 0 and inp = inp]
    show "?xq ! (q * (2 * N) + X) = inp ! (q * S) \<and> ?xq ! (q * (2 * N) + X + N) = inp ! (q * S)"
      by (simp add: algebra_simps)
  qed
  have other: "\<forall>p. (\<forall>q<D. p \<noteq> q * (2 * N) + X \<and> p \<noteq> q * (2 * N) + X + N) \<longrightarrow> ?xq ! p = xq ! p"
  proof (intro allI impI)
    fix p assume "\<forall>q<D. p \<noteq> q * (2 * N) + X \<and> p \<noteq> q * (2 * N) + X + N"
    then have "\<And>q. q < D \<Longrightarrow> p \<noteq> X + q * (N * 2) \<and> p \<noteq> X + q * (N * 2) + N"
      by (simp add: algebra_simps)
    from updatepq_loop_other [OF this, where s = S and ip = 0 and xq = xq and inp = inp]
    show "?xq ! p = xq ! p" .
  qed
  have len: "length ?xq = length xq"
    by (rule updatepq_loop_length)
  from res written other len n0
  have "\<exists>xq'. updatepq n d xi xq inp s = Some (xq', int ((X + 1) mod N)) \<and>
           (\<forall>q<D. xq' ! (q * (2 * N) + X) = inp ! (q * S) \<and>
                       xq' ! (q * (2 * N) + X + N) = inp ! (q * S)) \<and>
           (\<forall>p. (\<forall>q<D. p \<noteq> q * (2 * N) + X \<and> p \<noteq> q * (2 * N) + X + N) \<longrightarrow> xq' ! p = xq ! p) \<and>
           length xq' = length xq \<and> (X + 1) mod N < N"
    by (intro exI [of _ ?xq]) simp
  then show ?thesis
    unfolding N_def D_def S_def X_def .
qed


lemma updatepq_example_words:
  "unat (4::32 word) = 4" "unat (2::32 word) = 2" "unat (3::32 word) = 3"
  "to_int ((4::32 word) * 2) = 8" "to_int (((3::32 word) + 1) AND (4 - 1)) = 0"
  by (simp_all add: to_int_def)

lemma updatepq_example_loop:
  "updatepq_loop 4 8 2 2 3 0 [0, 0, 0, 0, 0, 0, 0, 0, 0, 0, 0, 0, 0, 0, 0, 0] [5, 6, 7]
     = Some [0, 0, 0, 5, 0, 0, 0, 5, 0, 0, 0, 7, 0, 0, 0, 7]"
  by code_simp

lemma updatepq_example:
  "updatepq 4 2 3 [0, 0, 0, 0, 0, 0, 0, 0, 0, 0, 0, 0, 0, 0, 0, 0] [5, 6, 7] 2 =
     Some ([0, 0, 0, 5, 0, 0, 0, 5, 0, 0, 0, 7, 0, 0, 0, 7], 0)"
  unfolding updatepq_def Let_def updatepq_example_words by (simp add: updatepq_example_loop)

theorem updatepq_pushes_witness:
  "(4 :: 32 word) = 2 ^ 2 \<and> (2::nat) < 30 \<and> (3 :: 32 word) < 4 \<and>
   unat (2 :: 32 word) * (2 * unat (4 :: 32 word))
     \<le> length [0, 0, 0, 0, 0, 0, 0, 0, 0, 0, 0, 0, 0, 0, 0, 0 :: real] \<and>
   0 * unat (2 :: 32 word) < length [5, 6, 7 :: real] \<and> 1 * unat (2 :: 32 word) < length [5, 6, 7 :: real] \<and>
   updatepq 4 2 3 [0, 0, 0, 0, 0, 0, 0, 0, 0, 0, 0, 0, 0, 0, 0, 0] [5, 6, 7] 2 =
     Some ([0, 0, 0, 5, 0, 0, 0, 5, 0, 0, 0, 7, 0, 0, 0, 7], int ((unat (3 :: 32 word) + 1) mod unat (4 :: 32 word)))"
proof -
  have h: "(4 :: 32 word) = 2 ^ 2" "(2::nat) < 30" "(3 :: 32 word) < 4"
    "unat (2 :: 32 word) * (2 * unat (4 :: 32 word))
       \<le> length [0, 0, 0, 0, 0, 0, 0, 0, 0, 0, 0, 0, 0, 0, 0, 0 :: real]"
    by simp_all
  have i: "\<forall>q<unat (2 :: 32 word). q * unat (2 :: 32 word) < length [5, 6, 7 :: real]"
  proof (intro allI impI)
    fix q :: nat
    have u: "unat (2 :: 32 word) = 2" by simp
    assume "q < unat (2 :: 32 word)"
    then have "q = 0 \<or> q = 1" unfolding u by auto
    then show "q * unat (2 :: 32 word) < length [5, 6, 7 :: real]"
      unfolding u by (elim disjE) simp_all
  qed
  note e = updatepq_example
  have c: "int ((unat (3 :: 32 word) + 1) mod unat (4 :: 32 word)) = 0"
    by (simp add: updatepq_example_words)
  have j: "0 * unat (2 :: 32 word) < length [5, 6, 7 :: real]" "1 * unat (2 :: 32 word) < length [5, 6, 7 :: real]"
    by (simp_all add: updatepq_example_words)
  from updatepq_pushes [OF h i] have "\<exists>xq'. updatepq 4 2 3 [0, 0, 0, 0, 0, 0, 0, 0, 0, 0, 0, 0, 0, 0, 0, 0] [5, 6, 7] 2
      = Some (xq', int ((unat (3 :: 32 word) + 1) mod unat (4 :: 32 word)))"
    by blast
  with e have "updatepq 4 2 3 [0, 0, 0, 0, 0, 0, 0, 0, 0, 0, 0, 0, 0, 0, 0, 0] [5, 6, 7] 2 =
     Some ([0, 0, 0, 5, 0, 0, 0, 5, 0, 0, 0, 7, 0, 0, 0, 7], int ((unat (3 :: 32 word) + 1) mod unat (4 :: 32 word)))"
    by (simp only: c)
  with h j show ?thesis
    by (intro conjI)
qed


section \<open>Properties of the FIR design\<close>

lemma dsp0_sel:
  "WINDOW_MASK dsp0 = 0x1F" "BOXCAR dsp0 = 1" "LP dsp0 = 0x10000" "HP dsp0 = 0x20000"
  "BP dsp0 = 0x40000" "BS dsp0 = 0x80000" "REW dsp0 = 2" "ODD dsp0 = 0x10"
  "boxcar dsp0 = (\<lambda>n i. 1)"
  by (simp_all add: dsp0_def)

lemma fir_window_boxcar: "fir_window dsp0 0x10001 n opt = Some (\<lambda>i. 1)"
  "fir_window dsp0 0x20001 n opt = Some (\<lambda>i. 1)"
  "fir_window dsp0 0x40001 n opt = Some (\<lambda>i. 1)"
  "fir_window dsp0 0x80001 n opt = Some (\<lambda>i. 1)"
  by (simp_all add: fir_window_def dsp0_sel)

lemma and_or_zero_iff: "(x::32 word) AND (a OR b) = 0 \<longleftrightarrow> x AND a = 0 \<and> x AND b = 0"
  by (simp add: bit.conj_disj_distrib or_eq_0_iff)

lemma fir_od: "(n::nat) AND 1 = n mod 2"
  by (simp add: and_one_eq)

lemma fir_end: "drop_bit 1 (n + 1) - n mod 2 = n div (2::nat)"
proof -
  have "(n + 1) div 2 - n mod 2 = n div (2::nat)"
    by (cases "even n") (auto elim!: evenE oddE)
  then show ?thesis
    by (simp add: drop_bit_Suc)
qed

lemma fir_synth_alt:
  "fir_synth h n w fc flags opt =
     (case w of
        None \<Rightarrow> Inl None
      | Some w \<Rightarrow>
          if n = 0 then Inl (Some w)
          else
            (case fir_window h flags n opt of
               None \<Rightarrow> Inl (Some w)
             | Some env \<Rightarrow>
                 (case (if flags AND (LP h OR HP h) \<noteq> 0
                        then fir_lp_hp h n (n mod 2) (n div 2) (0.5 * real (1 - n mod 2)) fc flags
                               (map env [0..<n] @ drop n w, 0, 2 * pi)
                        else Inr (map env [0..<n] @ drop n w, 0, 2 * pi)) of
                    Inl w \<Rightarrow> Inl (Some w)
                  | Inr s \<Rightarrow>
                      (case (if flags AND (BP h OR BS h) \<noteq> 0
                             then fir_bp_bs h n (n mod 2) (n div 2) (0.5 * real (1 - n mod 2)) fc flags s
                             else Inr s) of
                         Inl w \<Rightarrow> Inl (Some w)
                       | Inr (w, g, k1) \<Rightarrow> Inr (w, g)))))"
  unfolding fir_synth_def Let_def fir_od fir_end by (rule refl)

text \<open>Each block returns \<open>-1\<close> exactly on an even length without its first kind bit.\<close>

lemma fir_lp_hp_Inl:
  "(\<exists>b. fir_lp_hp h n od e k2 fc flags s = Inl b) \<longleftrightarrow> flags AND LP h = 0 \<and> od = 0"
  by (cases s) (simp add: fir_lp_hp_def Let_def split: prod.splits)

lemma fir_bp_bs_Inl:
  "(\<exists>b. fir_bp_bs h n od e k2 fc flags s = Inl b) \<longleftrightarrow> flags AND BP h = 0 \<and> od = 0"
  by (cases s) (simp add: fir_bp_bs_def Let_def split: prod.splits)

lemma fir_ret_normalize: "fir_ret (fir_normalize n w g) = 0"
  by (simp add: fir_normalize_def Let_def)

lemma fir_ret_design_fir:
  "fir_ret (design_fir h n w fc flags opt) =
     (if w = None \<or> n = 0 \<or> fir_window h flags n opt = None
         \<or> (flags AND (LP h OR HP h) \<noteq> 0 \<and> flags AND LP h = 0 \<and> even n)
         \<or> (flags AND (BP h OR BS h) \<noteq> 0 \<and> flags AND BP h = 0 \<and> even n)
      then - 1 else 0)"
proof (cases w)
  case None
  then show ?thesis by (simp add: design_fir_def fir_synth_alt)
next
  case (Some w0)
  show ?thesis
  proof (cases "n = 0 \<or> fir_window h flags n opt = None")
    case True
    then show ?thesis using Some by (auto simp: design_fir_def fir_synth_alt)
  next
    case False
    then obtain env where env: "fir_window h flags n opt = Some env" and n: "n \<noteq> 0"
      by auto
    define s0 where "s0 = (map env [0..<n] @ drop n w0, 0::real, 2 * pi)"
    define r1 where "r1 = (if flags AND (LP h OR HP h) \<noteq> 0
        then fir_lp_hp h n (n mod 2) (n div 2) (0.5 * real (1 - n mod 2)) fc flags s0 else Inr s0)"
    have r1_Inl: "(\<exists>b. r1 = Inl b) \<longleftrightarrow> flags AND (LP h OR HP h) \<noteq> 0 \<and> flags AND LP h = 0 \<and> even n"
      unfolding r1_def using fir_lp_hp_Inl [of h n "n mod 2" "n div 2" _ fc flags s0]
      by (auto simp: even_iff_mod_2_eq_zero)
    have d: "design_fir h n w fc flags opt =
      (case (case r1 of Inl w \<Rightarrow> Inl (Some w)
             | Inr s \<Rightarrow> (case (if flags AND (BP h OR BS h) \<noteq> 0
                             then fir_bp_bs h n (n mod 2) (n div 2) (0.5 * real (1 - n mod 2)) fc flags s
                             else Inr s) of
                         Inl w \<Rightarrow> Inl (Some w)
                       | Inr (w, g, k1) \<Rightarrow> Inr (w, g))) of Inl b \<Rightarrow> Fail b | Inr (w, g) \<Rightarrow> fir_normalize n w g)"
      using Some env n by (simp add: design_fir_def fir_synth_alt r1_def s0_def)
    show ?thesis
    proof (cases r1)
      case (Inl b)
      with r1_Inl d Some env n show ?thesis by auto
    next
      case (Inr s)
      with r1_Inl have no1: "\<not> (flags AND (LP h OR HP h) \<noteq> 0 \<and> flags AND LP h = 0 \<and> even n)"
        by auto
      define r2 where "r2 = (if flags AND (BP h OR BS h) \<noteq> 0
                             then fir_bp_bs h n (n mod 2) (n div 2) (0.5 * real (1 - n mod 2)) fc flags s
                             else Inr s)"
      have r2_Inl: "(\<exists>b. r2 = Inl b) \<longleftrightarrow> flags AND (BP h OR BS h) \<noteq> 0 \<and> flags AND BP h = 0 \<and> even n"
        unfolding r2_def using fir_bp_bs_Inl [of h n "n mod 2" "n div 2" _ fc flags s]
        by (auto simp: even_iff_mod_2_eq_zero)
      have d2: "design_fir h n w fc flags opt =
         (case (case r2 of Inl w \<Rightarrow> Inl (Some w) | Inr (w, g, k1) \<Rightarrow> Inr (w, g)) of
            Inl b \<Rightarrow> Fail b | Inr (w, g) \<Rightarrow> fir_normalize n w g)"
        using d Inr by (simp add: r2_def)
      show ?thesis
      proof (cases r2)
        case (Inl b)
        with r2_Inl d2 Some env n no1 show ?thesis by auto
      next
        case (Inr t)
        with r2_Inl have "\<not> (flags AND (BP h OR BS h) \<noteq> 0 \<and> flags AND BP h = 0 \<and> even n)"
          by auto
        with Inr d2 Some env n no1 show ?thesis
          by (cases t) (auto simp: fir_ret_normalize)
      qed
    qed
  qed
qed

text \<open>
  C3.  A high-pass or band-stop design of even length returns the failure result \<open>-1\<close>,
  whatever the window and the cutoffs; a low-pass or band-pass design of any positive
  length, even or odd, with a valid window selector returns \<open>0\<close>.  The kind requested is
  read off the flag word the way the function tests it: high pass is the \<open>HP\<close> bit without
  the \<open>LP\<close> bit, band stop the \<open>BS\<close> bit without the \<open>BP\<close> bit.
\<close>

theorem design_fir_parity:
  "(even n \<and> ((flags AND LP h = 0 \<and> flags AND HP h \<noteq> 0) \<or>
               (flags AND BP h = 0 \<and> flags AND BS h \<noteq> 0))
      \<longrightarrow> fir_ret (design_fir h n w fc flags opt) = - 1) \<and>
   (0 < n \<and> fir_window h flags n opt \<noteq> None \<and>
      ((flags AND LP h \<noteq> 0 \<and> flags AND BP h = 0 \<and> flags AND BS h = 0) \<or>
       (flags AND BP h \<noteq> 0 \<and> flags AND LP h = 0 \<and> flags AND HP h = 0))
      \<longrightarrow> fir_ret (design_fir h n (Some w0) fc flags opt) = 0)"
  unfolding fir_ret_design_fir by (auto simp: and_or_zero_iff)

theorem design_fir_parity_witness:
  "even (2::nat) \<and> (0x20001 AND LP dsp0 = 0 \<and> 0x20001 AND HP dsp0 \<noteq> 0) \<and>
   fir_ret (design_fir dsp0 2 (Some [0, 0]) [1 / 2] 0x20001 0) = - 1 \<and>
   0 < (2::nat) \<and> fir_window dsp0 0x10001 2 0 \<noteq> None \<and>
   (0x10001 AND LP dsp0 \<noteq> 0 \<and> 0x10001 AND BP dsp0 = 0 \<and> 0x10001 AND BS dsp0 = 0) \<and>
   fir_ret (design_fir dsp0 2 (Some [0, 0]) [1 / 2] 0x10001 0) = 0"
  using design_fir_parity [of 2 "0x20001" dsp0 "Some [0, 0]" "[1 / 2]" 0 "[0, 0]"]
    design_fir_parity [of 2 "0x10001" dsp0 "Some [0, 0]" "[1 / 2]" 0 "[0, 0]"]
  by (simp add: dsp0_sel fir_window_boxcar)

lemma fir_synth_HP_even:
  assumes "even n" and "0 < n" and "fir_window h flags n opt = Some env"
    and "flags AND LP h = 0" and "flags AND HP h \<noteq> 0"
  shows "fir_synth h n (Some w0) fc flags opt = Inl (Some (map env [0..<n] @ drop n w0))"
  using assms
  by (simp add: fir_synth_alt fir_lp_hp_def and_or_zero_iff Let_def even_iff_mod_2_eq_zero)

lemma fir_synth_BS_even:
  assumes "even n" and "0 < n" and "fir_window h flags n opt = Some env"
    and "flags AND LP h = 0" and "flags AND HP h = 0"
    and "flags AND BP h = 0" and "flags AND BS h \<noteq> 0"
  shows "fir_synth h n (Some w0) fc flags opt = Inl (Some (map env [0..<n] @ drop n w0))"
  using assms
  by (simp add: fir_synth_alt fir_bp_bs_def and_or_zero_iff Let_def even_iff_mod_2_eq_zero)

text \<open>
  C10.  A high-pass or band-stop request of even length \<open>n\<close> with a valid window selector
  fails only after the window generator has run: the buffer the failing call leaves holds
  the \<open>n\<close> coefficients of the window envelope in place of its first \<open>n\<close> entries.  (For
  \<open>n = 0\<close> the call fails at the sanity check, and there is no entry to overwrite.)
\<close>

theorem design_fir_failure_overwrites:
  assumes "even n" and "fir_window h flags n opt = Some env"
    and "(flags AND LP h = 0 \<and> flags AND HP h \<noteq> 0) \<or>
         (flags AND LP h = 0 \<and> flags AND HP h = 0 \<and> flags AND BP h = 0 \<and> flags AND BS h \<noteq> 0)"
  shows "design_fir h n (Some w0) fc flags opt = Fail (Some (map env [0..<n] @ drop n w0)) \<and>
         fir_ret (design_fir h n (Some w0) fc flags opt) = - 1"
proof (cases "n = 0")
  case True
  then show ?thesis
    by (simp add: design_fir_def fir_synth_alt)
next
  case False
  then have "0 < n" by simp
  with assms fir_synth_HP_even [of n h flags opt env w0 fc]
    fir_synth_BS_even [of n h flags opt env w0 fc]
  show ?thesis
    by (auto simp: design_fir_def)
qed

theorem design_fir_failure_overwrites_witness:
  "even (2::nat) \<and> fir_window dsp0 0x20001 2 0 = Some (\<lambda>i. 1) \<and>
   (0x20001 AND LP dsp0 = 0 \<and> 0x20001 AND HP dsp0 \<noteq> 0) \<and>
   design_fir dsp0 2 (Some [5, 6, 7]) [1 / 2] 0x20001 0 = Fail (Some [1, 1, 7])"
proof -
  have h: "even (2::nat)" "fir_window dsp0 0x20001 2 0 = Some (\<lambda>i. 1)"
    "(0x20001 AND LP dsp0 = 0 \<and> 0x20001 AND HP dsp0 \<noteq> 0) \<or>
     (0x20001 AND LP dsp0 = 0 \<and> 0x20001 AND HP dsp0 = 0 \<and> 0x20001 AND BP dsp0 = 0 \<and> 0x20001 AND BS dsp0 \<noteq> 0)"
    by (simp_all add: dsp0_sel fir_window_boxcar)
  have "map (\<lambda>i. 1::real) [0..<2] @ drop 2 [5, 6, 7] = [1, 1, 7]"
    by (simp add: upt_rec)
  with design_fir_failure_overwrites [OF h, of "[5, 6, 7]" "[1 / 2]"] h show ?thesis
    by (simp add: dsp0_sel)
qed

text \<open>The loop \<^verbatim>\<open>w[i] *= g\<close> with the infinite \<open>g = 1/0\<close>, in closed form.\<close>

lemma mul_inf_loop_nth:
  "length (fold (\<lambda>i t. t[i := mul_inf (w ! i)]) [0..<n] (map Fin w)) = length w \<and>
   (\<forall>j<length w. fold (\<lambda>i t. t[i := mul_inf (w ! i)]) [0..<n] (map Fin w) ! j
        = (if j < n then mul_inf (w ! j) else Fin (w ! j)))"
proof (induction n)
  case 0
  show ?case by simp
next
  case (Suc n)
  then show ?case
    by (auto simp: nth_list_update less_Suc_eq)
qed

lemma mul_inf_loop:
  "fold (\<lambda>i t. t[i := mul_inf (w ! i)]) [0..<n] (map Fin w)
     = map mul_inf (take n w) @ map Fin (drop n w)"
  using mul_inf_loop_nth [of w n]
  by (intro nth_equalityI) (auto simp: nth_append)

text \<open>
  C2 as the source has it.  \<open>design_fir\<close> has no check of the gain.  It returns \<open>-1\<close>
  exactly for a null buffer, a zero length, an unknown window selector or an even length
  of a high-pass or band-stop branch; every call that reaches the normalisation returns
  \<open>0\<close>, and with \<open>g = 0\<close> it has multiplied the taps by \<open>1/0\<close>: each of the \<open>n\<close> taps
  returned is an infinity, or NaN where the tap was \<open>0\<close>.
\<close>

theorem design_fir_no_gain_check:
  "(fir_ret (design_fir h n w fc flags opt) = - 1 \<longleftrightarrow>
      w = None \<or> n = 0 \<or> fir_window h flags n opt = None
      \<or> (flags AND (LP h OR HP h) \<noteq> 0 \<and> flags AND LP h = 0 \<and> even n)
      \<or> (flags AND (BP h OR BS h) \<noteq> 0 \<and> flags AND BP h = 0 \<and> even n)) \<and>
   (fir_synth h n w fc flags opt = Inr (t, g) \<longrightarrow>
      fir_ret (design_fir h n w fc flags opt) = 0 \<and>
      (g = 0 \<longrightarrow> design_fir h n w fc flags opt
                  = Done_nonfinite (map mul_inf (take n t) @ map Fin (drop n t))))"
proof (intro conjI impI)
  show "fir_ret (design_fir h n w fc flags opt) = - 1 \<longleftrightarrow>
      w = None \<or> n = 0 \<or> fir_window h flags n opt = None
      \<or> (flags AND (LP h OR HP h) \<noteq> 0 \<and> flags AND LP h = 0 \<and> even n)
      \<or> (flags AND (BP h OR BS h) \<noteq> 0 \<and> flags AND BP h = 0 \<and> even n)"
    unfolding fir_ret_design_fir by simp
next
  assume "fir_synth h n w fc flags opt = Inr (t, g)"
  then show "fir_ret (design_fir h n w fc flags opt) = 0"
    by (simp add: design_fir_def fir_ret_normalize)
next
  assume "fir_synth h n w fc flags opt = Inr (t, g)" and "g = 0"
  then show "design_fir h n w fc flags opt
               = Done_nonfinite (map mul_inf (take n t) @ map Fin (drop n t))"
    by (simp add: design_fir_def fir_normalize_def mul_inf_loop)
qed

lemma fir_synth_HP_odd:
  assumes "odd n" and "fir_window h flags n opt = Some env"
    and "flags AND LP h = 0" and "flags AND HP h \<noteq> 0"
    and "flags AND BP h = 0" and "flags AND BS h = 0"
  shows "fir_synth h n (Some w0) fc flags opt =
     Inr (fold (hp_tap (2 * pi * fir_cutoff (fc ! 0)) n (n div 2)) [0..<n div 2]
            ((map env [0..<n] @ drop n w0)[n div 2 := 1 - fir_cutoff (fc ! 0) * env (n div 2) * 2],
             1 - fir_cutoff (fc ! 0) * env (n div 2) * 2))"
proof -
  have n: "0 < n" using assms(1) by (cases n) simp_all
  then have e: "n div 2 < n" by simp
  then have "(map env [0..<n] @ drop n w0) ! (n div 2) = env (n div 2)"
    by (simp add: nth_append)
  then show ?thesis
    using assms e n
    by (simp add: fir_synth_alt fir_lp_hp_def and_or_zero_iff Let_def
        even_iff_mod_2_eq_zero split: prod.splits)
qed

lemma fir_synth_zero_gain:
  "fir_synth dsp0 1 (Some [7]) [1] 0x20001 0 = Inr ([0], 0)"
  by (subst fir_synth_HP_odd [where env = "\<lambda>i. 1"])
    (simp_all add: fir_window_boxcar dsp0_sel fir_cutoff_def)

theorem design_fir_no_gain_check_witness:
  "fir_synth dsp0 1 (Some [7]) [1] 0x20001 0 = Inr ([0], 0) \<and>
   fir_ret (design_fir dsp0 1 (Some [7]) [1] 0x20001 0) = 0 \<and>
   design_fir dsp0 1 (Some [7]) [1] 0x20001 0 = Done_nonfinite [NaN]"
  using design_fir_no_gain_check [of dsp0 1 "Some [7]" "[1]" "0x20001" 0 "[0]" 0]
    fir_synth_zero_gain
  by (simp add: mul_inf_def)

text \<open>
  The claim C2 as the specification words it fails: the high pass of length 1 with the
  boxcar window and cutoff 1 has centre tap \<open>1 - 2 * 0.5 * 1 = 0\<close>, so its gain is 0, and
  the call returns \<open>0\<close>, not a failure; the tap it returns is \<open>0 * (1/0)\<close>, a NaN.
\<close>

theorem design_fir_zero_gain_counterexample:
  "fir_synth dsp0 1 (Some [7]) [1] 0x20001 0 = Inr ([0], 0) \<and>
   design_fir dsp0 1 (Some [7]) [1] 0x20001 0 = Done_nonfinite [NaN] \<and>
   fir_ret (design_fir dsp0 1 (Some [7]) [1] 0x20001 0) \<noteq> - 1"
  unfolding design_fir_def fir_synth_zero_gain by (simp add: fir_normalize_def mul_inf_def)




section \<open>Properties of the IIR design\<close>

lemma prewarp_Some:
  assumes "prewarp a fc fs = Some a'" and "3 \<le> length a"
  shows "a' ! 0 = a ! 0"
    and "a' ! 1 = a ! 1 / (2 * fs * tan (pi * fc / fs))"
    and "a' ! 2 = a ! 2 / (2 * fs * tan (pi * fc / fs) * (2 * fs * tan (pi * fc / fs)))"
  using assms by (auto simp: prewarp_def Let_def split: if_splits)

lemma bilinear_gain:
  assumes "bilinear a b k fs coef = Some (k', coef')"
  shows "k' = k * ((4 * a ! 2 * fs * fs + 2 * a ! 1 * fs + a ! 0) /
                   (4 * b ! 2 * fs * fs + 2 * b ! 1 * fs + b ! 0))"
  using assms by (auto simp: bilinear_def Let_def split: if_splits)

lemma szxform_gain:
  assumes dn: "szxform (Some (num s)) (Some (den s)) (Qf s) (cutoff s) (rate s) (Some k) (Some coef)
                 = Iir_done k' coef'"
    and len: "3 \<le> length (num s)" "3 \<le> length (den s)"
  shows "k' = k * section_ratio s"
proof -
  from dn obtain a' b' where
    a': "prewarp (take 3 (num s)) (cutoff s) (rate s) = Some a'" and
    b': "prewarp ((take 3 (den s))[1 := take 3 (den s) ! 1 / Qf s]) (cutoff s) (rate s) = Some b'" and
    bl: "bilinear a' b' k (rate s) coef = Some (k', coef')"
    by (auto simp: szxform_def Let_def split: if_splits option.splits)
  have la: "3 \<le> length (take 3 (num s))"
    and lb: "3 \<le> length ((take 3 (den s))[1 := take 3 (den s) ! 1 / Qf s])"
    using len by simp_all
  note pa = prewarp_Some [OF a' la] and pb = prewarp_Some [OF b' lb]
  show ?thesis
    unfolding bilinear_gain [OF bl] pa pb section_ratio_def Let_def
    using len by simp
qed

text \<open>
  C7.  When each of the calls of a cascade returns \<open>0\<close> with finite values, the gain it
  leaves is the gain it was started with times the product of the ratios \<open>ad / bd\<close> of the
  sections, each ratio computed from the raw coefficients of its own section.  No call
  resets the accumulator: started at \<open>1\<close>, the final gain is that product.
\<close>

theorem szxform_cascade_gain:
  assumes "szx_cascade ss k = Some k'"
    and "\<forall>s\<in>set ss. 3 \<le> length (num s) \<and> 3 \<le> length (den s)"
  shows "k' = k * prod_list (map section_ratio ss)"
  using assms
proof (induction ss arbitrary: k)
  case Nil
  then show ?case by simp
next
  case (Cons s ss)
  from Cons.prems(1) obtain k1 coef1 where
    one: "szxform (Some (num s)) (Some (den s)) (Qf s) (cutoff s) (rate s) (Some k)
            (Some [0, 0, 0, 0]) = Iir_done k1 coef1"
    and rest: "szx_cascade ss k1 = Some k'"
    by (auto split: iir_result.splits)
  from Cons.prems(2) have len: "3 \<le> length (num s)" "3 \<le> length (den s)"
    and lens: "\<forall>s\<in>set ss. 3 \<le> length (num s) \<and> 3 \<le> length (den s)"
    by simp_all
  have "k1 = k * section_ratio s"
    by (rule szxform_gain [OF one len])
  moreover have "k' = k1 * prod_list (map section_ratio ss)"
    by (rule Cons.IH [OF rest lens])
  ultimately show ?case by simp
qed

lemma szxform_biquad0:
  "szxform (Some [1, 0, 0]) (Some [1, 1, 1]) 1 1 4 (Some k) (Some [0, 0, 0, 0])
     = Iir_done (k * (1 / 3)) [0, 1 / 3, 2, 1]"
  by (simp add: szxform_def prewarp_def bilinear_def Let_def tan_45 cos_45)

theorem szxform_cascade_gain_witness:
  "szx_cascade [biquad0, biquad0] 1 = Some (1 / 9) \<and>
   3 \<le> length (num biquad0) \<and> 3 \<le> length (den biquad0) \<and>
   (1 / 9 :: real) = 1 * prod_list (map section_ratio [biquad0, biquad0])"
proof -
  have c: "szx_cascade [biquad0, biquad0] 1 = Some (1 / 9)"
    by (simp add: biquad0_def szxform_biquad0)
  have l: "\<forall>s\<in>set [biquad0, biquad0]. 3 \<le> length (num s) \<and> 3 \<le> length (den s)"
    by (simp add: biquad0_def)
  from szxform_cascade_gain [OF c l] c l show ?thesis
    by simp
qed

section \<open>Properties of the polyphase decomposition\<close>

lemma pfir_rows_closed:
  "k \<le> length pw \<Longrightarrow>
   pfir_rows g w k j sg (p, pw) =
     (p + k, map (\<lambda>i. if i < k then (pw ! i)[j := g * w ! (p + i) * sg] else pw ! i) [0..<length pw])"
proof (induction k)
  case 0
  show ?case by (simp add: pfir_rows_def map_nth)
next
  case (Suc k)
  then have k: "k < length pw" by simp
  let ?R = "map (\<lambda>i. if i < k then (pw ! i)[j := g * w ! (p + i) * sg] else pw ! i) [0..<length pw]"
  have "pfir_rows g w (Suc k) j sg (p, pw) =
        (\<lambda>(p, pw). let t = g * w ! p in (p + 1, pw[k := (pw ! k)[j := t * sg]]))
          (pfir_rows g w k j sg (p, pw))"
    by (simp add: pfir_rows_def)
  also have "\<dots> = (p + k + 1, ?R[k := (?R ! k)[j := g * w ! (p + k) * sg]])"
    using Suc.IH k by (simp add: Let_def)
  also have "?R[k := (?R ! k)[j := g * w ! (p + k) * sg]] =
     map (\<lambda>i. if i < Suc k then (pw ! i)[j := g * w ! (p + i) * sg] else pw ! i) [0..<length pw]"
    using k by (intro nth_equalityI) (auto simp: nth_list_update less_Suc_eq)
  finally show ?case by simp
qed

text \<open>A column loop over any list of distinct columns \<open>js\<close>, each with its own sign.\<close>

lemma pfir_cols_length:
  "k \<le> length pw \<Longrightarrow>
   length (snd (fold (\<lambda>j. pfir_rows g w k j (sg j)) js (p, pw))) = length pw"
proof (induction js arbitrary: p pw)
  case Nil
  show ?case by simp
next
  case (Cons j js)
  show ?case
    using Cons.prems Cons.IH [of "map (\<lambda>i. if i < k then (pw ! i)[j := g * w ! (p + i) * sg j] else pw ! i) [0..<length pw]" "p + k"]
    by (simp add: pfir_rows_closed)
qed

lemma pfir_cols_row_length:
  "k \<le> length pw \<Longrightarrow> i < length pw \<Longrightarrow>
   length (snd (fold (\<lambda>j. pfir_rows g w k j (sg j)) js (p, pw)) ! i) = length (pw ! i)"
proof (induction js arbitrary: p pw)
  case Nil
  show ?case by simp
next
  case (Cons j js)
  show ?case
    using Cons.prems Cons.IH [of "map (\<lambda>i. if i < k then (pw ! i)[j := g * w ! (p + i) * sg j] else pw ! i) [0..<length pw]" "p + k"]
    by (simp add: pfir_rows_closed)
qed

lemma pfir_cols_other:
  "k \<le> length pw \<Longrightarrow> i < length pw \<Longrightarrow> c \<notin> set js \<or> k \<le> i \<Longrightarrow>
   snd (fold (\<lambda>j. pfir_rows g w k j (sg j)) js (p, pw)) ! i ! c = pw ! i ! c"
proof (induction js arbitrary: p pw)
  case Nil
  show ?case by simp
next
  case (Cons j js)
  let ?R = "map (\<lambda>i. if i < k then (pw ! i)[j := g * w ! (p + i) * sg j] else pw ! i) [0..<length pw]"
  have "snd (fold (\<lambda>j. pfir_rows g w k j (sg j)) js (p + k, ?R)) ! i ! c = ?R ! i ! c"
    using Cons.prems by (intro Cons.IH) auto
  also have "?R ! i ! c = pw ! i ! c"
    using Cons.prems by auto
  finally show ?case
    using Cons.prems by (simp add: pfir_rows_closed)
qed

lemma pfir_cols_written:
  "distinct js \<Longrightarrow> k \<le> length pw \<Longrightarrow> q < length js \<Longrightarrow> i < k \<Longrightarrow>
   js ! q < length (pw ! i) \<Longrightarrow>
   snd (fold (\<lambda>j. pfir_rows g w k j (sg j)) js (p, pw)) ! i ! (js ! q)
     = g * w ! (p + q * k + i) * sg (js ! q)"
proof (induction js arbitrary: p pw q)
  case Nil
  then show ?case by simp
next
  case (Cons j js)
  let ?R = "map (\<lambda>i. if i < k then (pw ! i)[j := g * w ! (p + i) * sg j] else pw ! i) [0..<length pw]"
  have step: "fold (\<lambda>j. pfir_rows g w k j (sg j)) (j # js) (p, pw)
              = fold (\<lambda>j. pfir_rows g w k j (sg j)) js (p + k, ?R)"
    using Cons.prems(2) by (simp add: pfir_rows_closed)
  have i: "i < length pw" using Cons.prems by simp
  show ?case
  proof (cases q)
    case 0
    have "snd (fold (\<lambda>j. pfir_rows g w k j (sg j)) js (p + k, ?R)) ! i ! j = ?R ! i ! j"
      using Cons.prems i by (intro pfir_cols_other) auto
    also have "?R ! i ! j = g * w ! (p + i) * sg j"
      using Cons.prems i 0 by simp
    finally show ?thesis
      using 0 step by simp
  next
    case (Suc q')
    have "snd (fold (\<lambda>j. pfir_rows g w k j (sg j)) js (p + k, ?R)) ! i ! (js ! q')
          = g * w ! (p + k + q' * k + i) * sg (js ! q')"
      using Cons.prems i Suc by (intro Cons.IH) auto
    then show ?thesis
      using Suc step by (simp add: algebra_simps)
  qed
qed

lemma pfir_fill_nth:
  assumes "k \<le> length pw" and "i < k" and "j < l" and "l \<le> length (pw ! i)"
  shows "pfir_fill h (int l) (int k) w pw g flags ! i ! j =
     (if flags AND REW h \<noteq> 0
      then g * w ! ((l - 1 - j) * k + i) * (if flags AND ODD h \<noteq> 0 then (if odd j then - 1 else 1) else 1)
      else g * w ! (j * k + i) * (if flags AND ODD h \<noteq> 0 then (if odd j then 1 else - 1) else 1))"
proof (cases "flags AND REW h \<noteq> 0")
  case True
  let ?sg = "\<lambda>j::nat. if flags AND ODD h \<noteq> 0 then (if j AND 1 \<noteq> 0 then - 1 else 1) else (1::real)"
  have q: "l - Suc j < length (rev [0..<l])" using assms(3) by simp
  have jq: "rev [0..<l] ! (l - Suc j) = j"
    using assms(3) by (simp add: rev_nth)
  have "snd (fold (\<lambda>j. pfir_rows g w k j (?sg j)) (rev [0..<l]) (0, pw)) ! i ! (rev [0..<l] ! (l - Suc j))
        = g * w ! (0 + (l - Suc j) * k + i) * ?sg (rev [0..<l] ! (l - Suc j))"
    using assms q by (intro pfir_cols_written) (simp_all add: jq)
  then show ?thesis
    using True by (simp add: pfir_fill_def jq fir_od odd_iff_mod_2_eq_one)
next
  case False
  let ?sg = "\<lambda>j::nat. if flags AND ODD h \<noteq> 0 then (if j AND 1 \<noteq> 0 then 1 else - 1) else (1::real)"
  have "snd (fold (\<lambda>j. pfir_rows g w k j (?sg j)) [0..<l] (0, pw)) ! i ! ([0..<l] ! j)
        = g * w ! (0 + j * k + i) * ?sg ([0..<l] ! j)"
    using assms by (intro pfir_cols_written) simp_all
  then show ?thesis
    using False assms(3) by (simp add: pfir_fill_def fir_od odd_iff_mod_2_eq_one)
qed

lemma pfir_fill_other:
  assumes "k \<le> length pw" and "i < length pw" and "k \<le> i \<or> l \<le> c"
  shows "pfir_fill h (int l) (int k) w pw g flags ! i ! c = pw ! i ! c"
  using assms by (auto simp: pfir_fill_def intro!: pfir_cols_other)

lemma pfir_fill_shape:
  assumes "k \<le> length pw"
  shows "length (pfir_fill h (int l) (int k) w pw g flags) = length pw"
    and "i < length pw \<Longrightarrow> length (pfir_fill h (int l) (int k) w pw g flags ! i) = length (pw ! i)"
  using assms by (simp_all add: pfir_fill_def pfir_cols_length pfir_cols_row_length)

lemma word_less_one_iff: "(k :: 32 word) < 1 \<longleftrightarrow> k = 0"
  by (simp add: word_less_nat_alt unat_eq_0)

lemma pfir_sanity_fails_iff:
  "k \<noteq> 0 \<Longrightarrow> pfir_sanity_fails n k w pw \<longleftrightarrow>
     unat n < unat k \<or> 2 ^ 31 \<le> unat n div unat k \<or> w = None \<or> pw = None"
proof -
  assume "k \<noteq> 0"
  then have k: "0 < unat k" by (simp add: unat_gt_0)
  have "to_int (n div k) < 1 \<longleftrightarrow> unat n div unat k < 1 \<or> 2 ^ 31 \<le> unat n div unat k"
  proof (cases "unat n div unat k < 2 ^ 31")
    case True
    then show ?thesis by (simp add: to_int_def unat_div)
  next
    case False
    have "unat (n div k) < 2 ^ 32"
      using unsigned_less [of "n div k"] by simp
    with False show ?thesis by (simp add: to_int_def unat_div)
  qed
  moreover have "unat n div unat k < 1 \<longleftrightarrow> unat n < unat k"
    using k by (simp add: div_eq_0_iff)
  ultimately show ?thesis
    using \<open>k \<noteq> 0\<close> by (simp add: pfir_sanity_fails_def word_less_one_iff)
qed

text \<open>
  C8.  For \<open>k\<close> rows and \<open>l = n div k\<close> columns, with \<open>1 \<le> l\<close>, both below \<open>2 ^ 31\<close>, and the
  bank large enough: with \<open>REW\<close> the column \<open>j\<close> receives the taps \<open>(l - 1 - j) * k + i\<close>, so
  the prototype fills the columns from the right, and under \<open>ODD\<close> the odd columns are
  negated; without \<open>REW\<close> the column \<open>j\<close> receives the taps \<open>j * k + i\<close>, and under \<open>ODD\<close> the
  even columns are negated; without \<open>ODD\<close> no sign changes; every element carries the
  factor \<open>g\<close>.  Nothing outside the \<open>k\<close> by \<open>l\<close> block is changed.
\<close>

theorem design_pfir_layout:
  assumes "k \<noteq> 0" and "unat k \<le> unat n" and "unat k < 2 ^ 31" and "unat n div unat k < 2 ^ 31"
    and "unat k \<le> length pw" and "\<forall>i<unat k. unat n div unat k \<le> length (pw ! i)"
  shows "\<exists>bank. design_pfir h n k (Some w) (Some pw) g flags = Some (- 1, Some bank) \<and>
         (\<forall>i<unat k. \<forall>j<unat n div unat k.
            bank ! i ! j =
              (if flags AND REW h \<noteq> 0
               then g * w ! ((unat n div unat k - 1 - j) * unat k + i) *
                      (if flags AND ODD h \<noteq> 0 then (if odd j then - 1 else 1) else 1)
               else g * w ! (j * unat k + i) *
                      (if flags AND ODD h \<noteq> 0 then (if odd j then 1 else - 1) else 1))) \<and>
         (\<forall>i<length pw. \<forall>c. unat k \<le> i \<or> unat n div unat k \<le> c \<longrightarrow> bank ! i ! c = pw ! i ! c) \<and>
         length bank = length pw"
proof -
  define K L where "K = unat k" and "L = unat n div unat k"
  let ?bank = "pfir_fill h (int L) (int K) w pw g flags"
  have dims: "to_int (n div k) = int L" "to_int k = int K"
    using assms(3,4) by (simp_all add: to_int_def unat_div K_def L_def)
  have "\<not> pfir_sanity_fails n k (Some w) (Some pw)"
    using assms(1,2,4) by (simp add: pfir_sanity_fails_iff)
  then have res: "design_pfir h n k (Some w) (Some pw) g flags = Some (- 1, Some ?bank)"
    using assms(1) by (simp add: design_pfir_def dims)
  have ent: "\<forall>i<K. \<forall>j<L. ?bank ! i ! j =
              (if flags AND REW h \<noteq> 0
               then g * w ! ((L - 1 - j) * K + i) *
                      (if flags AND ODD h \<noteq> 0 then (if odd j then - 1 else 1) else 1)
               else g * w ! (j * K + i) *
                      (if flags AND ODD h \<noteq> 0 then (if odd j then 1 else - 1) else 1))"
  proof (intro allI impI)
    fix i j assume i: "i < K" and j: "j < L"
    have "K \<le> length pw" and "L \<le> length (pw ! i)"
      using assms(5,6) i unfolding K_def L_def by simp_all
    then show "?bank ! i ! j =
              (if flags AND REW h \<noteq> 0
               then g * w ! ((L - 1 - j) * K + i) *
                      (if flags AND ODD h \<noteq> 0 then (if odd j then - 1 else 1) else 1)
               else g * w ! (j * K + i) *
                      (if flags AND ODD h \<noteq> 0 then (if odd j then 1 else - 1) else 1))"
      using i j by (intro pfir_fill_nth)
  qed
  have oth: "\<forall>i<length pw. \<forall>c. K \<le> i \<or> L \<le> c \<longrightarrow> ?bank ! i ! c = pw ! i ! c"
  proof (intro allI impI)
    fix i c assume "i < length pw" and "K \<le> i \<or> L \<le> c"
    moreover have "K \<le> length pw" using assms(5) unfolding K_def .
    ultimately show "?bank ! i ! c = pw ! i ! c"
      by (intro pfir_fill_other)
  qed
  have "K \<le> length pw" using assms(5) unfolding K_def .
  then have len: "length ?bank = length pw"
    by (rule pfir_fill_shape)
  from res ent oth len show ?thesis
    unfolding K_def L_def by blast
qed

lemma pfir_example_words:
  "to_int ((4::32 word) div 2) = 2" "to_int (2::32 word) = 2" "unat (4::32 word) = 4" "unat (2::32 word) = 2"
  "to_int ((10::32 word) div 3) = 3" "to_int (3::32 word) = 3" "unat (10::32 word) = 10" "unat (3::32 word) = 3"
  "to_int ((0::32 word) div 1) = 0" "unat (1::32 word) = 1"
  "to_int ((2 ^ 31 :: 32 word) div 1) = - (2 ^ 31)" "unat (2 ^ 31 :: 32 word) = 2 ^ 31"
  by (simp_all add: to_int_def)

lemma pfir_fill_example:
  "pfir_fill dsp0 2 2 [1, 2, 3, 4] [[0, 0], [0, 0]] 10 0x12 = [[30, - 10], [40, - 20]]"
  "pfir_fill dsp0 2 2 [1, 2, 3, 4] [[0, 0], [0, 0]] 1 0 = [[1, 3], [2, 4]]"
  "pfir_fill dsp0 3 3 [1, 2, 3, 4, 5, 6, 7, 8, 9, 10] [[0, 0, 0], [0, 0, 0], [0, 0, 0]] 1 0
     = [[1, 4, 7], [2, 5, 8], [3, 6, 9]]"
  unfolding pfir_fill_def dsp0_sel by code_simp+

lemma design_pfir_example:
  "design_pfir dsp0 4 2 (Some [1, 2, 3, 4]) (Some [[0, 0], [0, 0]]) 10 0x12
     = Some (- 1, Some [[30, - 10], [40, - 20]])"
  "design_pfir dsp0 4 2 (Some [1, 2, 3, 4]) (Some [[0, 0], [0, 0]]) 1 0
     = Some (- 1, Some [[1, 3], [2, 4]])"
  "design_pfir dsp0 10 3 (Some [1, 2, 3, 4, 5, 6, 7, 8, 9, 10]) (Some [[0, 0, 0], [0, 0, 0], [0, 0, 0]]) 1 0
     = Some (- 1, Some [[1, 4, 7], [2, 5, 8], [3, 6, 9]])"
  "design_pfir dsp0 0 1 (Some []) (Some [[]]) 1 0 = Some (- 1, Some [[]])"
  "design_pfir dsp0 (2 ^ 31) 1 (Some w) (Some [[0]]) 1 0 = Some (- 1, Some [[0]])"
  unfolding design_pfir_def pfir_sanity_fails_def Let_def pfir_example_words
  by (simp_all add: pfir_fill_example)

theorem design_pfir_layout_witness:
  "(2 :: 32 word) \<noteq> 0 \<and> unat (2 :: 32 word) \<le> unat (4 :: 32 word) \<and> unat (2 :: 32 word) < 2 ^ 31 \<and>
   unat (4 :: 32 word) div unat (2 :: 32 word) < 2 ^ 31 \<and>
   unat (2 :: 32 word) \<le> length [[0, 0], [0, 0 :: real]] \<and>
   unat (4 :: 32 word) div unat (2 :: 32 word) \<le> length ([[0, 0], [0, 0 :: real]] ! 0) \<and>
   unat (4 :: 32 word) div unat (2 :: 32 word) \<le> length ([[0, 0], [0, 0 :: real]] ! 1) \<and>
   design_pfir dsp0 4 2 (Some [1, 2, 3, 4]) (Some [[0, 0], [0, 0]]) 10 0x12
     = Some (- 1, Some [[30, - 10], [40, - 20]]) \<and>
   [[30, - 10], [40, - 20]] ! 0 ! 1 = 10 * [1, 2, 3, 4 :: real] ! ((2 - 1 - 1) * 2 + 0) * (- 1)"
proof -
  have h: "(2 :: 32 word) \<noteq> 0" "unat (2 :: 32 word) \<le> unat (4 :: 32 word)" "unat (2 :: 32 word) < 2 ^ 31"
    "unat (4 :: 32 word) div unat (2 :: 32 word) < 2 ^ 31"
    "unat (2 :: 32 word) \<le> length [[0, 0], [0, 0 :: real]]"
    by simp_all
  have r: "\<forall>i<unat (2 :: 32 word). unat (4 :: 32 word) div unat (2 :: 32 word)
             \<le> length ([[0, 0], [0, 0 :: real]] ! i)"
  proof (intro allI impI)
    fix i :: nat
    assume "i < unat (2 :: 32 word)"
    then have "i = 0 \<or> i = 1" unfolding pfir_example_words by auto
    then show "unat (4 :: 32 word) div unat (2 :: 32 word) \<le> length ([[0, 0], [0, 0 :: real]] ! i)"
      unfolding pfir_example_words by (elim disjE) simp_all
  qed
  have e: "0x12 AND REW dsp0 \<noteq> 0" "0x12 AND ODD dsp0 \<noteq> 0"
    by (simp_all add: dsp0_sel)
  from design_pfir_layout [OF h r, of dsp0 "[1, 2, 3, 4]" 10 "0x12"]
  obtain bank where b: "design_pfir dsp0 4 2 (Some [1, 2, 3, 4]) (Some [[0, 0], [0, 0]]) 10 0x12
                          = Some (- 1, Some bank)"
    and ent: "\<forall>i<unat (2 :: 32 word). \<forall>j<unat (4 :: 32 word) div unat (2 :: 32 word).
            bank ! i ! j =
              (if 0x12 AND REW dsp0 \<noteq> 0
               then 10 * [1, 2, 3, 4] ! ((unat (4 :: 32 word) div unat (2 :: 32 word) - 1 - j) * unat (2 :: 32 word) + i) *
                      (if 0x12 AND ODD dsp0 \<noteq> 0 then (if odd j then - 1 else 1) else 1)
               else 10 * [1, 2, 3, 4] ! (j * unat (2 :: 32 word) + i) *
                      (if 0x12 AND ODD dsp0 \<noteq> 0 then (if odd j then 1 else - 1) else 1))"
    by blast
  from b have bank: "bank = [[30, - 10], [40, - 20]]"
    by (simp add: design_pfir_example)
  have "[[30, - 10], [40, - 20]] ! 0 ! 1 = 10 * [1, 2, 3, 4 :: real] ! ((2 - 1 - 1) * 2 + 0) * (- 1)"
    by simp
  with h b bank show ?thesis
    unfolding pfir_example_words by simp
qed





section \<open>The tap loops\<close>

text \<open>
  The four tap loops share their shape: step \<open>i\<close> stores \<open>w ! (e - i - 1) * c i\<close> at the two
  indices \<open>n - e + i\<close> and \<open>e - i - 1\<close>, for a factor \<open>c i\<close> that does not depend on the
  buffer.  The lemmas of this section hold for every step function \<open>f\<close> of that shape.
\<close>

lemma tap_fold_length:
  assumes step: "\<And>i w g. fst (f i (w, g)) = w[n - e + i := w ! (e - i - 1) * c i, e - i - 1 := w ! (e - i - 1) * c i]"
  shows "length (fst (fold f [0..<m] (w, g))) = length w"
proof (induction m)
  case 0
  show ?case by simp
next
  case (Suc m)
  obtain W G where WG: "fold f [0..<m] (w, g) = (W, G)"
    by (cases "fold f [0..<m] (w, g)")
  with Suc show ?case
    by (simp add: step)
qed

lemma tap_fold_other:
  assumes step: "\<And>i w g. fst (f i (w, g)) = w[n - e + i := w ! (e - i - 1) * c i, e - i - 1 := w ! (e - i - 1) * c i]"
    and other: "\<And>i. i < m \<Longrightarrow> j \<noteq> e - i - 1 \<and> j \<noteq> n - e + i"
  shows "fst (fold f [0..<m] (w, g)) ! j = w ! j"
  using other
proof (induction m)
  case 0
  show ?case by simp
next
  case (Suc m)
  obtain W G where WG: "fold f [0..<m] (w, g) = (W, G)"
    by (cases "fold f [0..<m] (w, g)")
  have "W ! j = w ! j"
    using Suc.IH Suc.prems WG by simp
  moreover have "j \<noteq> e - m - 1" "j \<noteq> n - e + m"
    using Suc.prems [of m] by simp_all
  ultimately show ?case
    using WG by (simp add: step)
qed

lemma tap_fold_written:
  assumes step: "\<And>i w g. fst (f i (w, g)) = w[n - e + i := w ! (e - i - 1) * c i, e - i - 1 := w ! (e - i - 1) * c i]"
    and "i < m" and "m \<le> e" and "2 * e \<le> n" and "n \<le> length w"
  shows "fst (fold f [0..<m] (w, g)) ! (e - i - 1) = w ! (e - i - 1) * c i \<and>
         fst (fold f [0..<m] (w, g)) ! (n - e + i) = w ! (e - i - 1) * c i"
  using assms(2,3)
proof (induction m)
  case 0
  then show ?case by simp
next
  case (Suc m)
  obtain W G where WG: "fold f [0..<m] (w, g) = (W, G)"
    by (cases "fold f [0..<m] (w, g)")
  have lenW: "length W = length w"
    using tap_fold_length [of f n e c m w g, OF step] WG by simp
  have m: "m < e" using Suc.prems by simp
  have new: "fst (fold f [0..<Suc m] (w, g)) =
             W[n - e + m := W ! (e - m - 1) * c m, e - m - 1 := W ! (e - m - 1) * c m]"
    using WG by (simp add: step)
  show ?case
  proof (cases "i = m")
    case True
    have "W ! (e - m - 1) = w ! (e - m - 1)"
    proof -
      have "fst (fold f [0..<m] (w, g)) ! (e - m - 1) = w ! (e - m - 1)"
        using m assms(4) by (intro tap_fold_other [of f n e c, OF step]) auto
      then show ?thesis using WG by simp
    qed
    moreover have "e - m - 1 < length W" "n - e + m < length W" "n - e + m \<noteq> e - m - 1"
      using m assms(4,5) lenW by auto
    ultimately show ?thesis
      using True new by simp
  next
    case False
    then have im: "i < m" using Suc.prems by simp
    then have IH: "W ! (e - i - 1) = w ! (e - i - 1) * c i" "W ! (n - e + i) = w ! (e - i - 1) * c i"
      using Suc.IH m WG by simp_all
    have "e - i - 1 \<noteq> e - m - 1" "e - i - 1 \<noteq> n - e + m" "n - e + i \<noteq> e - m - 1" "n - e + i \<noteq> n - e + m"
      using im m assms(4) by auto
    with IH new show ?thesis by simp
  qed
qed

lemma tap_fold_symmetric:
  assumes step: "\<And>i w g. fst (f i (w, g)) = w[n - e + i := w ! (e - i - 1) * c i, e - i - 1 := w ! (e - i - 1) * c i]"
    and e: "e = n div 2" and len: "n \<le> length w" and j: "j < n"
  shows "fst (fold f [0..<e] (w, g)) ! j = fst (fold f [0..<e] (w, g)) ! (n - 1 - j)"
proof -
  have n2: "2 * e \<le> n" "n \<le> 2 * e + 1"
    unfolding e by (simp_all add: div_times_less_eq_dividend) 
  note wr = tap_fold_written [of f n e c _ e w g, OF step _ le_refl n2(1) len]
  consider "j < e" | "j = e" "n = 2 * e + 1" | "n - e \<le> j"
    using n2 j by linarith
  then show ?thesis
  proof cases
    case 1
    then have i: "e - j - 1 < e" by simp
    have a: "e - (e - j - 1) - 1 = j" using 1 by simp
    have b: "n - e + (e - j - 1) = n - 1 - j" using 1 n2 by simp
    from wr [OF i] have "fst (fold f [0..<e] (w, g)) ! j = w ! j * c (e - j - 1)"
      and "fst (fold f [0..<e] (w, g)) ! (n - 1 - j) = w ! j * c (e - j - 1)"
      unfolding a b by blast+
    then show ?thesis by (simp only:)
  next
    case 2
    then show ?thesis by simp
  next
    case 3
    then have i: "j - (n - e) < e" using j n2 by linarith
    have a: "n - e + (j - (n - e)) = j" using 3 by simp
    have b: "e - (j - (n - e)) - 1 = n - 1 - j" using 3 j n2 by linarith
    from wr [OF i] have "fst (fold f [0..<e] (w, g)) ! (n - 1 - j) = w ! (n - 1 - j) * c (j - (n - e))"
      and "fst (fold f [0..<e] (w, g)) ! j = w ! (n - 1 - j) * c (j - (n - e))"
      unfolding a b by blast+
    then show ?thesis by (simp only:)
  qed
qed


text \<open>The four loop bodies have that shape.\<close>

lemma lp_tap_step:
  "fst (lp_tap k1 k2 n e i (w, g)) =
     w[n - e + i := w ! (e - i - 1) * (sin (k1 * (real (i + 1) - k2)) / (pi * (real (i + 1) - k2))),
       e - i - 1 := w ! (e - i - 1) * (sin (k1 * (real (i + 1) - k2)) / (pi * (real (i + 1) - k2)))]"
  by (simp add: lp_tap_def Let_def)

lemma hp_tap_step:
  "fst (hp_tap k1 n e i (w, g)) =
     w[n - e + i := w ! (e - i - 1) * (- (sin (k1 * real (i + 1)) / (pi * real (i + 1)))),
       e - i - 1 := w ! (e - i - 1) * (- (sin (k1 * real (i + 1)) / (pi * real (i + 1))))]"
  by (simp add: hp_tap_def Let_def)

lemma bp_tap_step:
  "fst (bp_tap k1 k2 k3 n e i (w, g)) =
     w[n - e + i := w ! (e - i - 1) * (sin (k3 * (real (i + 1) - k2)) / (pi * (real (i + 1) - k2))
                                        - sin (k1 * (real (i + 1) - k2)) / (pi * (real (i + 1) - k2))),
       e - i - 1 := w ! (e - i - 1) * (sin (k3 * (real (i + 1) - k2)) / (pi * (real (i + 1) - k2))
                                        - sin (k1 * (real (i + 1) - k2)) / (pi * (real (i + 1) - k2)))]"
  by (simp add: bp_tap_def Let_def)

lemma bs_tap_step:
  "fst (bs_tap k1 k3 n e i (w, g)) =
     w[n - e + i := w ! (e - i - 1) * (sin (k1 * real (i + 1)) / (pi * real (i + 1))
                                        - sin (k3 * real (i + 1)) / (pi * real (i + 1))),
       e - i - 1 := w ! (e - i - 1) * (sin (k1 * real (i + 1)) / (pi * real (i + 1))
                                        - sin (k3 * real (i + 1)) / (pi * real (i + 1)))]"
  by (simp add: bs_tap_def Let_def)

text \<open>
  Whatever buffer a block starts from, the buffer it leaves is symmetric in its first \<open>n\<close>
  entries and as long as before.
\<close>

lemma fir_lp_hp_symmetric:
  assumes "fir_lp_hp h n od (n div 2) k2 fc flags (w, g, k1) = Inr (w', g', k1')"
    and "n \<le> length w" and "j < n"
  shows "w' ! j = w' ! (n - 1 - j) \<and> length w' = length w"
proof (cases "flags AND LP h \<noteq> 0")
  case True
  define w0 g0 where "w0 = (if od \<noteq> 0 then w[n div 2 := fir_cutoff (fc ! 0) * w ! (n div 2) * 2] else w)"
    and "g0 = (if od \<noteq> 0 then (w[n div 2 := fir_cutoff (fc ! 0) * w ! (n div 2) * 2]) ! (n div 2) else g)"
  have w': "w' = fst (fold (lp_tap (k1 * fir_cutoff (fc ! 0)) k2 n (n div 2)) [0..<n div 2] (w0, g0))"
    using assms(1) True by (auto simp: fir_lp_hp_def Let_def w0_def g0_def split: prod.splits if_splits)
  have len: "n \<le> length w0" "length w0 = length w"
    using assms(2) by (simp_all add: w0_def)
  show ?thesis
    unfolding w'
    using tap_fold_symmetric [of "lp_tap (k1 * fir_cutoff (fc ! 0)) k2 n (n div 2)" n "n div 2" _ w0 j g0,
        OF lp_tap_step refl len(1) assms(3)]
      tap_fold_length [of "lp_tap (k1 * fir_cutoff (fc ! 0)) k2 n (n div 2)" n "n div 2" _ "n div 2" w0 g0,
        OF lp_tap_step] len(2)
    by simp
next
  case False
  define w0 where "w0 = w[n div 2 := 1 - fir_cutoff (fc ! 0) * w ! (n div 2) * 2]"
  have w': "w' = fst (fold (hp_tap (k1 * fir_cutoff (fc ! 0)) n (n div 2)) [0..<n div 2] (w0, w0 ! (n div 2)))"
    using assms(1) False by (auto simp: fir_lp_hp_def Let_def w0_def split: prod.splits if_splits)
  have len: "n \<le> length w0" "length w0 = length w"
    using assms(2) by (simp_all add: w0_def)
  show ?thesis
    unfolding w'
    using tap_fold_symmetric [of "hp_tap (k1 * fir_cutoff (fc ! 0)) n (n div 2)" n "n div 2" _ w0 j "w0 ! (n div 2)",
        OF hp_tap_step refl len(1) assms(3)]
      tap_fold_length [of "hp_tap (k1 * fir_cutoff (fc ! 0)) n (n div 2)" n "n div 2" _ "n div 2" w0 "w0 ! (n div 2)",
        OF hp_tap_step] len(2)
    by simp
qed

lemma fir_bp_bs_symmetric:
  assumes "fir_bp_bs h n od (n div 2) k2 fc flags (w, g, k1) = Inr (w', g', k1')"
    and "n \<le> length w" and "j < n"
  shows "w' ! j = w' ! (n - 1 - j) \<and> length w' = length w"
proof (cases "flags AND BP h \<noteq> 0")
  case True
  define w0 g0 where "w0 = (if od \<noteq> 0
        then w[n div 2 := (fir_cutoff (fc ! 1) - fir_cutoff (fc ! 0)) * w ! (n div 2) * 2] else w)"
    and "g0 = (if od \<noteq> 0 then w ! (n div 2) * (fir_cutoff (fc ! 0) + fir_cutoff (fc ! 1)) else g)"
  have w': "w' = fst (fold (bp_tap (k1 * fir_cutoff (fc ! 0)) k2 (k1 * fir_cutoff (fc ! 1)) n (n div 2))
                        [0..<n div 2] (w0, g0))"
    using assms(1) True by (auto simp: fir_bp_bs_def Let_def w0_def g0_def split: prod.splits if_splits)
  have len: "n \<le> length w0" "length w0 = length w"
    using assms(2) by (simp_all add: w0_def)
  show ?thesis
    unfolding w'
    using tap_fold_symmetric [of "bp_tap (k1 * fir_cutoff (fc ! 0)) k2 (k1 * fir_cutoff (fc ! 1)) n (n div 2)"
          n "n div 2" _ w0 j g0, OF bp_tap_step refl len(1) assms(3)]
      tap_fold_length [of "bp_tap (k1 * fir_cutoff (fc ! 0)) k2 (k1 * fir_cutoff (fc ! 1)) n (n div 2)"
          n "n div 2" _ "n div 2" w0 g0, OF bp_tap_step] len(2)
    by simp
next
  case False
  define w0 where "w0 = w[n div 2 := 1 - (fir_cutoff (fc ! 1) - fir_cutoff (fc ! 0)) * w ! (n div 2) * 2]"
  have w': "w' = fst (fold (bs_tap (k1 * fir_cutoff (fc ! 0)) (k1 * fir_cutoff (fc ! 1)) n (n div 2))
                        [0..<n div 2] (w0, w0 ! (n div 2)))"
    using assms(1) False by (auto simp: fir_bp_bs_def Let_def w0_def split: prod.splits if_splits)
  have len: "n \<le> length w0" "length w0 = length w"
    using assms(2) by (simp_all add: w0_def)
  show ?thesis
    unfolding w'
    using tap_fold_symmetric [of "bs_tap (k1 * fir_cutoff (fc ! 0)) (k1 * fir_cutoff (fc ! 1)) n (n div 2)"
          n "n div 2" _ w0 j "w0 ! (n div 2)", OF bs_tap_step refl len(1) assms(3)]
      tap_fold_length [of "bs_tap (k1 * fir_cutoff (fc ! 0)) (k1 * fir_cutoff (fc ! 1)) n (n div 2)"
          n "n div 2" _ "n div 2" w0 "w0 ! (n div 2)", OF bs_tap_step] len(2)
    by simp
qed

section \<open>Normalisation and symmetry\<close>

lemma scale_loop_nth:
  "n \<le> length w \<Longrightarrow>
   length (fold (\<lambda>i w. w[i := w ! i * c]) [0..<n] w) = length w \<and>
   (\<forall>j. fold (\<lambda>i w. w[i := w ! i * c]) [0..<n] w ! j = (if j < n then w ! j * c else w ! j))"
proof (induction n)
  case 0
  show ?case by simp
next
  case (Suc n)
  then show ?case
    by (auto simp: nth_list_update less_Suc_eq)
qed

lemma scale_loop_take:
  assumes "n \<le> length w"
  shows "take n (fold (\<lambda>i w. w[i := w ! i * c]) [0..<n] w) = map (\<lambda>x. x * c) (take n w)"
  using assms scale_loop_nth [OF assms, of c]
  by (intro nth_equalityI) simp_all

lemma fir_normalize_Done:
  assumes "fir_normalize n w g = Done ts" and "n \<le> length w"
  shows "g \<noteq> 0 \<and> take n ts = map (\<lambda>x. x * (1 / g)) (take n w) \<and>
         (\<forall>j<n. ts ! j = w ! j * (1 / g))"
  using assms scale_loop_nth [OF assms(2), of "1 / g"] scale_loop_take [OF assms(2), of "1 / g"]
  by (auto simp: fir_normalize_def Let_def split: if_splits)

text \<open>What a run of \<open>fir_synth\<close> that reaches the normalisation has gone through.\<close>

lemma fir_synth_Inr:
  assumes "fir_synth h n w fc flags opt = Inr (t, g)"
  obtains w0 env s1 k where "w = Some w0" and "0 < n" and "fir_window h flags n opt = Some env"
    and "(if flags AND (LP h OR HP h) \<noteq> 0
          then fir_lp_hp h n (n mod 2) (n div 2) (0.5 * real (1 - n mod 2)) fc flags
                 (map env [0..<n] @ drop n w0, 0, 2 * pi)
          else Inr (map env [0..<n] @ drop n w0, 0, 2 * pi)) = Inr s1"
    and "(if flags AND (BP h OR BS h) \<noteq> 0
          then fir_bp_bs h n (n mod 2) (n div 2) (0.5 * real (1 - n mod 2)) fc flags s1
          else Inr s1) = Inr (t, g, k)"
proof -
  from assms obtain w0 where w: "w = Some w0"
    by (cases w) (simp_all add: fir_synth_alt)
  from assms w have n: "0 < n"
    by (cases "n = 0") (simp_all add: fir_synth_alt)
  from assms w n obtain env where env: "fir_window h flags n opt = Some env"
    by (cases "fir_window h flags n opt") (simp_all add: fir_synth_alt)
  define r1 where "r1 = (if flags AND (LP h OR HP h) \<noteq> 0
          then fir_lp_hp h n (n mod 2) (n div 2) (0.5 * real (1 - n mod 2)) fc flags
                 (map env [0..<n] @ drop n w0, 0, 2 * pi)
          else Inr (map env [0..<n] @ drop n w0, 0, 2 * pi))"
  have 1: "(case r1 of Inl w \<Rightarrow> Inl (Some w)
             | Inr s \<Rightarrow> (case (if flags AND (BP h OR BS h) \<noteq> 0
                             then fir_bp_bs h n (n mod 2) (n div 2) (0.5 * real (1 - n mod 2)) fc flags s
                             else Inr s) of
                         Inl w \<Rightarrow> Inl (Some w)
                       | Inr (w, g, k1) \<Rightarrow> Inr (w, g))) = Inr (t, g)"
    using assms w n env unfolding fir_synth_alt r1_def by simp
  then obtain s1 where s1: "r1 = Inr s1"
    by (cases r1) simp_all
  define r2 where "r2 = (if flags AND (BP h OR BS h) \<noteq> 0
                             then fir_bp_bs h n (n mod 2) (n div 2) (0.5 * real (1 - n mod 2)) fc flags s1
                             else Inr s1)"
  from 1 s1 have 2: "(case r2 of Inl w \<Rightarrow> Inl (Some w) | Inr (w, g, k1) \<Rightarrow> Inr (w, g)) = Inr (t, g)"
    by (simp add: r2_def)
  then obtain k where "r2 = Inr (t, g, k)"
    by (cases r2) (auto split: prod.splits)
  with w n env s1 that show thesis
    unfolding r1_def r2_def by blast
qed

lemma fir_synth_symmetric:
  assumes "fir_synth h n w fc flags opt = Inr (t, g)"
    and "flags AND (LP h OR HP h) \<noteq> 0 \<or> flags AND (BP h OR BS h) \<noteq> 0"
    and "j < n"
  shows "t ! j = t ! (n - 1 - j) \<and> n \<le> length t"
proof -
  from assms(1) obtain w0 env s1 k where
    r1: "(if flags AND (LP h OR HP h) \<noteq> 0
          then fir_lp_hp h n (n mod 2) (n div 2) (0.5 * real (1 - n mod 2)) fc flags
                 (map env [0..<n] @ drop n w0, 0, 2 * pi)
          else Inr (map env [0..<n] @ drop n w0, 0, 2 * pi)) = Inr s1"
    and r2: "(if flags AND (BP h OR BS h) \<noteq> 0
          then fir_bp_bs h n (n mod 2) (n div 2) (0.5 * real (1 - n mod 2)) fc flags s1
          else Inr s1) = Inr (t, g, k)"
    by (rule fir_synth_Inr)
  obtain w1 g1 k1 where s1: "s1 = (w1, g1, k1)"
    by (cases s1)
  have len0: "n \<le> length (map env [0..<n] @ drop n w0)"
    by simp
  have len1: "n \<le> length w1"
  proof (cases "flags AND (LP h OR HP h) \<noteq> 0")
    case True
    with r1 s1 fir_lp_hp_symmetric [OF _ len0 assms(3)] show ?thesis by simp
  next
    case False
    with r1 s1 len0 show ?thesis by auto
  qed
  show ?thesis
  proof (cases "flags AND (BP h OR BS h) \<noteq> 0")
    case True
    with r2 s1 fir_bp_bs_symmetric [OF _ len1 assms(3)] len1 show ?thesis by simp
  next
    case False
    with r2 s1 have t: "t = w1" by simp
    from False assms(2) have "flags AND (LP h OR HP h) \<noteq> 0" by simp
    with r1 s1 fir_lp_hp_symmetric [OF _ len0 assms(3)] len1 t show ?thesis by simp
  qed
qed

lemma fir_synth_no_kind:
  assumes "fir_synth h n w fc flags opt = Inr (t, g)"
    and "flags AND (LP h OR HP h) = 0" and "flags AND (BP h OR BS h) = 0"
  shows "g = 0"
  using assms by (auto simp: fir_synth_alt split: option.splits if_splits)

text \<open>
  C5 as the source has it.  The taps of every design that returns \<open>0\<close> with a non-zero
  gain, which are the finite, normalised taps, are symmetric: \<open>ts ! i = ts ! (n - 1 - i)\<close>
  for every \<open>i < n\<close>, for any flag word.  The length is an \<^verbatim>\<open>unsigned int\<close> whose successor
  the code computes, hence the bound.
\<close>

theorem design_fir_symmetric:
  assumes "design_fir h n w fc flags opt = Done ts" and "i < n" and "n < 2 ^ 32 - 1"
  shows "ts ! i = ts ! (n - 1 - i)"
proof -
  from assms(1) obtain t g where syn: "fir_synth h n w fc flags opt = Inr (t, g)"
    and nrm: "fir_normalize n t g = Done ts"
    by (auto simp: design_fir_def split: sum.splits)
  have kind: "flags AND (LP h OR HP h) \<noteq> 0 \<or> flags AND (BP h OR BS h) \<noteq> 0"
  proof (rule ccontr)
    assume "\<not> ?thesis"
    then have "g = 0" using fir_synth_no_kind [OF syn] by simp
    with nrm show False by (simp add: fir_normalize_def)
  qed
  have i': "n - 1 - i < n" using assms(2) by simp
  from fir_synth_symmetric [OF syn kind assms(2)]
  have sym: "t ! i = t ! (n - 1 - i)" and len: "n \<le> length t"
    by simp_all
  from fir_normalize_Done [OF nrm len] assms(2) i' sym show ?thesis
    by simp
qed

text \<open>
  The claim C5 as the specification words it fails, for a design that returns \<open>0\<close> with
  a zero gain: the high pass of length 1 with the boxcar window and cutoff 1 returns \<open>0\<close>
  and the one tap \<open>0 * (1/0)\<close>, a NaN, which \<^verbatim>\<open>==\<close> does not find equal to its mirror image,
  itself.
\<close>

theorem design_fir_nan_counterexample:
  "design_fir dsp0 1 (Some [7]) [1] 0x20001 0 = Done_nonfinite [NaN] \<and>
   fir_ret (design_fir dsp0 1 (Some [7]) [1] 0x20001 0) = 0 \<and>
   (0 :: nat) < 1 \<and> \<not> tap_eq ([NaN] ! 0) ([NaN] ! (1 - 1 - 0))"
  unfolding design_fir_def fir_synth_zero_gain by (simp add: fir_normalize_def mul_inf_def)

section \<open>The gain of a low pass and of a high pass\<close>













section \<open>Two designs of length 3, evaluated\<close>


lemma fir_normalize_3:
  "g \<noteq> 0 \<Longrightarrow> fir_normalize 3 [a, b, c] g = Done [a * (1 / g), b * (1 / g), c * (1 / g)]"
  by (simp add: fir_normalize_def numeral_3_eq_3)

lemma gain_3_pos: "0 < 1 / 2 + 2 / pi"
  by (simp add: add_pos_pos)

lemma fir_synth_hp3:
  "fir_synth dsp0 3 (Some [0, 0, 0]) [1 / 2] 0x20001 0 = Inr ([- (1 / pi), 1 / 2, - (1 / pi)], 1 / 2 + 2 / pi)"
  apply (subst fir_synth_HP_odd [where env = "\<lambda>i. 1"])
        apply (simp_all add: fir_window_boxcar dsp0_sel fir_cutoff_def)
  apply (simp add: numeral_3_eq_3 hp_tap_def Let_def)
  done


lemma design_fir_hp3:
  "design_fir dsp0 3 (Some [0, 0, 0]) [1 / 2] 0x20001 0 =
     Done [- (1 / pi) * (1 / (1 / 2 + 2 / pi)), 1 / 2 * (1 / (1 / 2 + 2 / pi)),
           - (1 / pi) * (1 / (1 / 2 + 2 / pi))]"
  unfolding design_fir_def fir_synth_hp3 using gain_3_pos
  by (simp only: sum.case prod.case fir_normalize_3 [OF less_imp_neq [THEN not_sym]])






theorem design_fir_symmetric_witness:
  "design_fir dsp0 3 (Some [0, 0, 0]) [1 / 2] 0x20001 0 =
     Done [- (1 / pi) * (1 / (1 / 2 + 2 / pi)), 1 / 2 * (1 / (1 / 2 + 2 / pi)),
           - (1 / pi) * (1 / (1 / 2 + 2 / pi))] \<and>
   (0::nat) < 3 \<and> (3::nat) < 2 ^ 32 - 1 \<and>
   [- (1 / pi) * (1 / (1 / 2 + 2 / pi)), 1 / 2 * (1 / (1 / 2 + 2 / pi)),
    - (1 / pi) * (1 / (1 / 2 + 2 / pi))] ! 0 =
   [- (1 / pi) * (1 / (1 / 2 + 2 / pi)), 1 / 2 * (1 / (1 / 2 + 2 / pi)),
    - (1 / pi) * (1 / (1 / 2 + 2 / pi))] ! (3 - 1 - 0)"
proof -
  have i: "(0::nat) < 3" by simp
  have b: "(3::nat) < 2 ^ 32 - 1" by simp
  from design_fir_symmetric [OF design_fir_hp3 i b] design_fir_hp3 i b
  show ?thesis by blast
qed

section \<open>The cutoffs in the taps\<close>







end
